theory Spec2Isabelle
  imports Main
begin

section \<open>The array library underneath the ring buffer\<close>

text \<open>
  The ring buffer of \<^verbatim>\<open>NumPyRingBuffer.py\<close> keeps its elements in a one-dimensional
  numpy array. The array operations the class uses are modelled here on lists:
  allocation without initialisation, reading and writing one position, and reading and
  writing a basic slice. Python integers are unbounded, so positions are \<open>int\<close>.
  Every exception is a value of \<open>error\<close>.
\<close>

datatype error = IndexError | TypeError | AttributeError | ValueError | ZeroDivisionError

text \<open>
  \<^verbatim>\<open>numpy.empty(n)\<close> returns \<open>n\<close> slots holding whatever the memory held before;
  \<open>mem\<close> stands for those contents. A negative size is refused with a ValueError.
\<close>

definition numpy_empty :: "int \<Rightarrow> (nat \<Rightarrow> 'a) \<Rightarrow> error + 'a list" where
  "numpy_empty n mem = (if n < 0 then Inl ValueError else Inr (map mem [0..<nat n]))"

text \<open>
  An integer position: a negative one counts from the end, and a position outside the
  array after that adjustment is an IndexError.
\<close>

definition norm_index :: "nat \<Rightarrow> int \<Rightarrow> error + nat" where
  "norm_index n i =
     (let j = (if i < 0 then i + int n else i)
      in if 0 \<le> j \<and> j < int n then Inr (nat j) else Inl IndexError)"

definition nd_get :: "'a list \<Rightarrow> int \<Rightarrow> error + 'a" where
  "nd_get arr i = (case norm_index (length arr) i of Inl e \<Rightarrow> Inl e | Inr k \<Rightarrow> Inr (arr ! k))"

text \<open>
  The right-hand side of an assignment, which \<^verbatim>\<open>__setitem__\<close> hands to the array as
  it is: one element, a list or tuple of elements, an array with memory of its own, or
  an array that is a view of the buffer's backing array, as \<^verbatim>\<open>getElements\<close> and a
  range read return. A view is given by the backing positions it shows; what it holds
  is read from the backing array at the time of each assignment.
\<close>

datatype 'a pyvalue = Scalar 'a | Sequence "'a list" | Array "'a list" | View "nat list"

fun items_of :: "'a list \<Rightarrow> 'a pyvalue \<Rightarrow> 'a list" where
  "items_of arr (Scalar x) = [x]"
| "items_of arr (Sequence xs) = xs"
| "items_of arr (Array xs) = xs"
| "items_of arr (View ps) = map ((!) arr) ps"

text \<open>
  Assigning to one position stores an element. A list or tuple there is refused
  (\<^verbatim>\<open>setting an array element with a sequence\<close>); an array is taken as its element
  when it has exactly one and refused otherwise.
\<close>

fun as_element :: "'a list \<Rightarrow> 'a pyvalue \<Rightarrow> error + 'a" where
  "as_element arr (Scalar x) = Inr x"
| "as_element arr (Sequence xs) = Inl ValueError"
| "as_element arr v = (case items_of arr v of [x] \<Rightarrow> Inr x | _ \<Rightarrow> Inl ValueError)"

definition nd_set :: "'a list \<Rightarrow> int \<Rightarrow> 'a pyvalue \<Rightarrow> error + 'a list" where
  "nd_set arr i v =
     (case norm_index (length arr) i of
        Inl e \<Rightarrow> Inl e
      | Inr k \<Rightarrow> (case as_element arr v of Inl e \<Rightarrow> Inl e | Inr x \<Rightarrow> Inr (arr[k := x])))"

text \<open>
  A slice object \<^verbatim>\<open>slice(start, stop, step)\<close>; each part may be \<^verbatim>\<open>None\<close>.
  \<open>slice_indices n s\<close> lists the positions the slice selects in an array of length
  \<open>n\<close>, as Python's \<^verbatim>\<open>slice.indices\<close> computes them: a zero step is a ValueError,
  a bound is shifted by \<open>n\<close> when negative and then clipped to the array.
\<close>

datatype pyslice = Slice (start: "int option") (stop: "int option") (step: "int option")

definition clip :: "int \<Rightarrow> int \<Rightarrow> int \<Rightarrow> int" where
  "clip n st x =
     (let y = (if x < 0 then x + n else x)
      in if y < 0 then (if st < 0 then - 1 else 0)
         else if n \<le> y then (if st < 0 then n - 1 else n)
         else y)"

definition slice_indices :: "nat \<Rightarrow> pyslice \<Rightarrow> error + nat list" where
  "slice_indices n s =
     (let st = (case step s of None \<Rightarrow> 1 | Some k \<Rightarrow> k)
      in if st = 0 then Inl ValueError
         else
           let lo = (case start s of None \<Rightarrow> (if st < 0 then int n - 1 else 0)
                                    | Some x \<Rightarrow> clip (int n) st x);
               hi = (case stop s of None \<Rightarrow> (if st < 0 then - 1 else int n)
                                   | Some x \<Rightarrow> clip (int n) st x);
               cnt = (if st < 0 then (if hi < lo then (lo - hi - 1) div (- st) + 1 else 0)
                      else (if lo < hi then (hi - lo - 1) div st + 1 else 0))
           in Inr (map (\<lambda>k. nat (lo + int k * st)) [0..<nat cnt]))"

definition nd_getslice :: "'a list \<Rightarrow> pyslice \<Rightarrow> error + 'a list" where
  "nd_getslice arr s =
     (case slice_indices (length arr) s of Inl e \<Rightarrow> Inl e | Inr ks \<Rightarrow> Inr (map ((!) arr) ks))"

text \<open>
  Assigning to a slice of \<open>n\<close> positions broadcasts the value to \<open>n\<close> elements: a
  value of \<open>n\<close> elements as it is, one element or a one-element sequence or array
  repeated \<open>n\<close> times, and anything else is a ValueError. A view is read before
  anything is stored. The elements are then stored position by position.
\<close>

definition broadcast :: "'a list \<Rightarrow> 'a pyvalue \<Rightarrow> nat \<Rightarrow> error + 'a list" where
  "broadcast arr v n =
     (let xs = items_of arr v
      in if length xs = n then Inr xs
         else if length xs = 1 then Inr (replicate n (hd xs))
         else Inl ValueError)"

definition nd_setslice :: "'a list \<Rightarrow> pyslice \<Rightarrow> 'a pyvalue \<Rightarrow> error + 'a list" where
  "nd_setslice arr s v =
     (case slice_indices (length arr) s of
        Inl e \<Rightarrow> Inl e
      | Inr ks \<Rightarrow>
          (case broadcast arr v (length ks) of
             Inl e \<Rightarrow> Inl e
           | Inr xs \<Rightarrow> Inr (fold (\<lambda>(k, x) a. a[k := x]) (zip ks xs) arr)))"

section \<open>The ring buffer\<close>

text \<open>
  The object's three attributes: \<^verbatim>\<open>_npa\<close>, the backing array of twice the capacity,
  \<^verbatim>\<open>max_size\<close>, the capacity, and \<^verbatim>\<open>_index\<close>, the write cursor. The element type
  \<open>'a\<close> is the array's dtype; elements are taken as already converted to it.
\<close>

record 'a NumPyRingBuffer =
  npa :: "'a list"
  max_size :: int
  index :: int

text \<open>
  A method that mutates the buffer returns the new buffer, or the exception together
  with the buffer as the exception leaves it.
\<close>

type_synonym 'a outcome = "(error \<times> 'a NumPyRingBuffer) + 'a NumPyRingBuffer"

definition init :: "int \<Rightarrow> (nat \<Rightarrow> 'a) \<Rightarrow> error + 'a NumPyRingBuffer" where
  "init cap mem =
     (case numpy_empty (cap * 2) mem of
        Inl e \<Rightarrow> Inl e
      | Inr a \<Rightarrow> Inr \<lparr>npa = a, max_size = cap, index = 0\<rparr>)"

text \<open>
  The two statements \<^verbatim>\<open>self._npa[i%self.max_size]=v\<close> and
  \<^verbatim>\<open>self._npa[(i%self.max_size)+self.max_size]=v\<close>, which \<^verbatim>\<open>append\<close> and both
  integer branches of \<^verbatim>\<open>__setitem__\<close> share. The remainder by zero raises.
\<close>

definition store_pair :: "'a NumPyRingBuffer \<Rightarrow> int \<Rightarrow> 'a pyvalue \<Rightarrow> 'a outcome" where
  "store_pair b i v =
     (if max_size b = 0 then Inl (ZeroDivisionError, b)
      else case nd_set (npa b) (i mod max_size b) v of
             Inl e \<Rightarrow> Inl (e, b)
           | Inr a1 \<Rightarrow>
               (case nd_set a1 (i mod max_size b + max_size b) v of
                  Inl e \<Rightarrow> Inl (e, b\<lparr>npa := a1\<rparr>)
                | Inr a2 \<Rightarrow> Inr (b\<lparr>npa := a2\<rparr>)))"

text \<open>
  \<^verbatim>\<open>append\<close> takes an element of the array's type, as its docstring asks.
\<close>

definition append_rb :: "'a NumPyRingBuffer \<Rightarrow> 'a \<Rightarrow> 'a outcome" where
  "append_rb b element =
     (case store_pair b (index b) (Scalar element) of
        Inl e \<Rightarrow> Inl e
      | Inr b' \<Rightarrow> Inr (b'\<lparr>index := index b' + 1\<rparr>))"

definition getElements :: "'a NumPyRingBuffer \<Rightarrow> error + 'a list" where
  "getElements b =
     (if max_size b = 0 then Inl ZeroDivisionError
      else nd_getslice (npa b)
             (Slice (Some (index b mod max_size b))
                    (Some (index b mod max_size b + max_size b)) None))"

definition isFull :: "'a NumPyRingBuffer \<Rightarrow> bool" where
  "isFull b = (max_size b \<le> index b)"

definition clear :: "'a NumPyRingBuffer \<Rightarrow> 'a NumPyRingBuffer" where
  "clear b = b\<lparr>index := 0\<rparr>"

definition len :: "'a NumPyRingBuffer \<Rightarrow> int" where
  "len b = (if isFull b then max_size b else index b)"

text \<open>
  \<^verbatim>\<open>__getattr__\<close> hands the attribute lookup to an array: the first \<^verbatim>\<open>_index\<close>
  slots while the cursor is below the capacity, the capacity-long slice at the cursor
  afterwards. \<open>window\<close> is that array; an attribute such as \<^verbatim>\<open>min\<close>, \<^verbatim>\<open>max\<close>,
  \<^verbatim>\<open>mean\<close>, \<^verbatim>\<open>std\<close> or \<^verbatim>\<open>sum\<close> is a function \<open>a\<close> of it.
\<close>

definition window :: "'a NumPyRingBuffer \<Rightarrow> error + 'a list" where
  "window b =
     (if index b < max_size b then nd_getslice (npa b) (Slice None (Some (index b)) None)
      else if max_size b = 0 then Inl ZeroDivisionError
      else nd_getslice (npa b)
             (Slice (Some (index b mod max_size b))
                    (Some (index b mod max_size b + max_size b)) None))"

definition getattr :: "'a NumPyRingBuffer \<Rightarrow> ('a list \<Rightarrow> 'r) \<Rightarrow> error + 'r" where
  "getattr b a = (case window b of Inl e \<Rightarrow> Inl e | Inr w \<Rightarrow> Inr (a w))"

subsection \<open>Selectors\<close>

text \<open>
  What \<^verbatim>\<open>__setitem__\<close> and \<^verbatim>\<open>__getitem__\<close> tell apart with \<^verbatim>\<open>isinstance\<close>:
  an integer, a slice, a list or tuple of items, or anything else. An item of a list is
  an integer, a slice, or a value that is neither, which both loops pass over.
\<close>

datatype item = IntItem int | SliceItem pyslice | OtherItem

datatype selector = Items "item list" | IntSel int | SliceSel pyslice | OtherSel

text \<open>
  The range branch of \<^verbatim>\<open>__setitem__\<close>: a missing start and a missing stop both
  default to 0, the cursor is added, and the two assignments go to the slice of the
  remainders and to the same slice moved up by the capacity. The value \<open>v\<close> reaches
  both assignments unchanged, so a view of the buffer is read again for the second one,
  after the first has stored.
\<close>

definition store_range :: "'a NumPyRingBuffer \<Rightarrow> pyslice \<Rightarrow> 'a pyvalue \<Rightarrow> 'a outcome" where
  "store_range b s v =
     (let istart = (case start s of None \<Rightarrow> 0 | Some x \<Rightarrow> x);
          istop = (case stop s of None \<Rightarrow> 0 | Some x \<Rightarrow> x);
          start' = istart + index b;
          stop' = istop + index b
      in if max_size b = 0 then Inl (ZeroDivisionError, b)
         else case nd_setslice (npa b)
                     (Slice (Some (start' mod max_size b)) (Some (stop' mod max_size b)) (step s)) v of
                Inl e \<Rightarrow> Inl (e, b)
              | Inr a1 \<Rightarrow>
                  (case nd_setslice a1
                          (Slice (Some (start' mod max_size b + max_size b))
                                 (Some (stop' mod max_size b + max_size b)) (step s)) v of
                     Inl e \<Rightarrow> Inl (e, b\<lparr>npa := a1\<rparr>)
                   | Inr a2 \<Rightarrow> Inr (b\<lparr>npa := a2\<rparr>)))"

text \<open>
  The loop of the list branch. At a slice item the code reads \<^verbatim>\<open>indexs.start\<close>,
  the attribute of the list itself, which a list or tuple does not have: the loop ends
  there with an AttributeError, the earlier items already stored.
\<close>

fun setitem_items :: "'a NumPyRingBuffer \<Rightarrow> item list \<Rightarrow> 'a pyvalue \<Rightarrow> 'a outcome" where
  "setitem_items b [] v = Inr b"
| "setitem_items b (IntItem i # rest) v =
     (case store_pair b (i + index b) v of
        Inl e \<Rightarrow> Inl e
      | Inr b' \<Rightarrow> setitem_items b' rest v)"
| "setitem_items b (SliceItem s # rest) v = Inl (AttributeError, b)"
| "setitem_items b (OtherItem # rest) v = setitem_items b rest v"

fun setitem :: "'a NumPyRingBuffer \<Rightarrow> selector \<Rightarrow> 'a pyvalue \<Rightarrow> 'a outcome" where
  "setitem b (Items indexs) v = setitem_items b indexs v"
| "setitem b (IntSel i) v = store_pair b (i + index b) v"
| "setitem b (SliceSel s) v = store_range b s v"
| "setitem b OtherSel v = Inl (TypeError, b)"

text \<open>
  Whether an item of a selector list is a slice, and the two backing slots an integer
  item addresses on a buffer of capacity \<open>C\<close> with cursor \<open>idx\<close>, in the order
  they are stored to.
\<close>

fun is_slice :: "item \<Rightarrow> bool" where
  "is_slice (SliceItem s) = True"
| "is_slice _ = False"

fun item_slots :: "int \<Rightarrow> int \<Rightarrow> item \<Rightarrow> nat list" where
  "item_slots C idx (IntItem i) = [nat ((i + idx) mod C), nat ((i + idx) mod C + C)]"
| "item_slots C idx _ = []"

text \<open>
  \<^verbatim>\<open>__getitem__\<close> reads from the array \<^verbatim>\<open>getElements\<close> returns. A single integer
  gives one element, a single slice an array, a list the concatenation of what its
  items select.
\<close>

datatype 'a fetched = Element 'a | Elements "'a list"

fun getitem_items :: "'a list \<Rightarrow> item list \<Rightarrow> error + 'a list" where
  "getitem_items current_array [] = Inr []"
| "getitem_items current_array (IntItem i # rest) =
     (case nd_get current_array i of
        Inl e \<Rightarrow> Inl e
      | Inr x \<Rightarrow> (case getitem_items current_array rest of
                    Inl e \<Rightarrow> Inl e
                  | Inr xs \<Rightarrow> Inr (x # xs)))"
| "getitem_items current_array (SliceItem s # rest) =
     (case nd_getslice current_array s of
        Inl e \<Rightarrow> Inl e
      | Inr ys \<Rightarrow> (case getitem_items current_array rest of
                     Inl e \<Rightarrow> Inl e
                   | Inr xs \<Rightarrow> Inr (ys @ xs)))"
| "getitem_items current_array (OtherItem # rest) = getitem_items current_array rest"

fun getitem :: "'a NumPyRingBuffer \<Rightarrow> selector \<Rightarrow> error + 'a fetched" where
  "getitem b (Items indexs) =
     (case getElements b of
        Inl e \<Rightarrow> Inl e
      | Inr current_array \<Rightarrow> map_sum id Elements (getitem_items current_array indexs))"
| "getitem b (IntSel i) =
     (case getElements b of
        Inl e \<Rightarrow> Inl e
      | Inr current_array \<Rightarrow> map_sum id Element (nd_get current_array i))"
| "getitem b (SliceSel s) =
     (case getElements b of
        Inl e \<Rightarrow> Inl e
      | Inr current_array \<Rightarrow> map_sum id Elements (nd_getslice current_array s))"
| "getitem b OtherSel =
     (case getElements b of Inl e \<Rightarrow> Inl e | Inr current_array \<Rightarrow> Inl TypeError)"

subsection \<open>Runs of operations\<close>

text \<open>
  \<open>appends\<close> calls \<^verbatim>\<open>append\<close> once for each value of a list, in order, and stops at
  the first exception.
\<close>

fun appends :: "'a NumPyRingBuffer \<Rightarrow> 'a list \<Rightarrow> 'a outcome" where
  "appends b [] = Inr b"
| "appends b (x # xs) = (case append_rb b x of Inl e \<Rightarrow> Inl e | Inr b' \<Rightarrow> appends b' xs)"

text \<open>
  A caller's sequence of mutating calls. \<open>left\<close> is the buffer a call leaves behind,
  whether it returned or raised; \<open>run\<close> makes the calls one after the other, a raised
  exception being caught by the caller.
\<close>

datatype 'a call = Append 'a | SetItem selector "'a pyvalue" | Clear

fun exec :: "'a NumPyRingBuffer \<Rightarrow> 'a call \<Rightarrow> 'a outcome" where
  "exec b (Append x) = append_rb b x"
| "exec b (SetItem sel v) = setitem b sel v"
| "exec b Clear = Inr (clear b)"

fun left :: "'a outcome \<Rightarrow> 'a NumPyRingBuffer" where
  "left (Inl (e, b)) = b"
| "left (Inr b) = b"

fun run :: "'a NumPyRingBuffer \<Rightarrow> 'a call list \<Rightarrow> 'a NumPyRingBuffer" where
  "run b [] = b"
| "run b (c # cs) = run (left (exec b c)) cs"

text \<open>
  The data model's invariants: a positive capacity, a backing array of twice the
  capacity, a cursor that is not negative.
\<close>

definition valid :: "'a NumPyRingBuffer \<Rightarrow> bool" where
  "valid b = (0 < max_size b \<and> int (length (npa b)) = 2 * max_size b \<and> 0 \<le> index b)"

text \<open>
  The duplication invariant at one slot \<open>s\<close> of the lower half: the slot and the slot
  offset by the capacity hold the same value.
\<close>

definition mirrored :: "'a NumPyRingBuffer \<Rightarrow> nat \<Rightarrow> bool" where
  "mirrored b s = (npa b ! s = npa b ! (s + nat (max_size b)))"

text \<open>
  Between two states of the buffer, both halves of slot \<open>s\<close> hold what they held.
\<close>

definition untouched :: "'a NumPyRingBuffer \<Rightarrow> 'a NumPyRingBuffer \<Rightarrow> nat \<Rightarrow> bool" where
  "untouched b b' s =
     (npa b' ! s = npa b ! s \<and> npa b' ! (s + nat (max_size b)) = npa b ! (s + nat (max_size b)))"

text \<open>
  The slots below the capacity that the first assignment of a range write selects.
\<close>

definition range_slots :: "'a NumPyRingBuffer \<Rightarrow> pyslice \<Rightarrow> nat list" where
  "range_slots b r =
     (case slice_indices (length (npa b))
             (Slice (Some (((case start r of None \<Rightarrow> 0 | Some x \<Rightarrow> x) + index b) mod max_size b))
                    (Some (((case stop r of None \<Rightarrow> 0 | Some x \<Rightarrow> x) + index b) mod max_size b))
                    (step r)) of
        Inl e \<Rightarrow> []
      | Inr ks \<Rightarrow> ks)"

text \<open>
  What a call keeps of slot \<open>s\<close>: the buffer stays valid with its capacity, and
  the two halves of the slot are equal afterwards or both as they were.
\<close>

definition settled :: "'a NumPyRingBuffer \<Rightarrow> 'a NumPyRingBuffer \<Rightarrow> nat \<Rightarrow> bool" where
  "settled b b' s =
     (valid b' \<and> max_size b' = max_size b \<and> (mirrored b' s \<or> untouched b b' s))"

text \<open>
  A value that shares no memory with the buffer, and a call whose value is one.
\<close>

fun plain :: "'a pyvalue \<Rightarrow> bool" where
  "plain (View ps) = False"
| "plain _ = True"

fun plain_call :: "'a call \<Rightarrow> bool" where
  "plain_call (SetItem sel v) = plain v"
| "plain_call _ = True"

text \<open>
  A slice that runs forward: no step, or a positive one.
\<close>

fun forward :: "int option \<Rightarrow> bool" where
  "forward None = True"
| "forward (Some k) = (0 < k)"

text \<open>Memory contents for the worked examples: slot \<open>k\<close> holds \<open>100 + k\<close>.\<close>

definition stale :: "nat \<Rightarrow> int" where
  "stale k = 100 + int k"

section \<open>Facts about the operations\<close>

subsection \<open>Stores and appends on a valid buffer\<close>

lemma norm_index_in: "0 \<le> i \<Longrightarrow> i < int n \<Longrightarrow> norm_index n i = Inr (nat i)"
  by (simp add: norm_index_def)

lemma store_pair_valid:
  assumes "valid b"
  shows "store_pair b i (Scalar v) =
    Inr (b\<lparr>npa := (npa b)[nat (i mod max_size b) := v, nat (i mod max_size b + max_size b) := v]\<rparr>)"
proof -
  let ?C = "max_size b"
  from assms have C: "0 < ?C" and L: "int (length (npa b)) = 2 * ?C"
    by (simp_all add: valid_def)
  have m: "0 \<le> i mod ?C" "i mod ?C < ?C" using C by simp_all
  have 1: "norm_index (length (npa b)) (i mod ?C) = Inr (nat (i mod ?C))"
    using m L by (intro norm_index_in) linarith+
  have 2: "norm_index (length (npa b)) (i mod ?C + ?C) = Inr (nat (i mod ?C + ?C))"
    using m L by (intro norm_index_in) linarith+
  show ?thesis using C 1 2 by (simp add: store_pair_def nd_set_def)
qed

lemma append_rb_valid:
  assumes "valid b"
  shows "append_rb b v =
    Inr (b\<lparr>npa := (npa b)[nat (index b mod max_size b) := v,
                           nat (index b mod max_size b + max_size b) := v],
           index := index b + 1\<rparr>)"
  by (simp add: append_rb_def store_pair_valid [OF assms])

lemma valid_append_rb: "valid b \<Longrightarrow> append_rb b v = Inr b' \<Longrightarrow> valid b'"
  by (auto simp: append_rb_valid valid_def)

lemma appends_snoc:
  "appends b (xs @ [x]) = (case appends b xs of Inl e \<Rightarrow> Inl e | Inr b' \<Rightarrow> append_rb b' x)"
  by (induction xs arbitrary: b) (auto split: sum.splits)

lemma slice_indices_plain:
  assumes "0 \<le> lo" "lo \<le> hi" "hi \<le> int n"
  shows "slice_indices n (Slice (Some lo) (Some hi) None) = Inr [nat lo..<nat hi]"
proof -
  have c1: "clip (int n) 1 lo = lo" using assms by (auto simp: clip_def)
  have c2: "clip (int n) 1 hi = hi" using assms by (auto simp: clip_def)
  have "map (\<lambda>k. nat (lo + int k)) [0..<nat (hi - lo)] = [nat lo..<nat hi]"
    using assms by (auto intro!: nth_equalityI simp: nat_add_distrib nat_diff_distrib)
  then show ?thesis using assms c1 c2
    by (auto simp: slice_indices_def)
qed

lemma slice_indices_prefix:
  assumes "0 \<le> hi" "hi \<le> int n"
  shows "slice_indices n (Slice None (Some hi) None) = Inr [0..<nat hi]"
proof -
  have c2: "clip (int n) 1 hi = hi" using assms by (auto simp: clip_def)
  have "map (\<lambda>k. nat (int k)) [0..<nat hi] = [0..<nat hi]"
    by (auto intro!: nth_equalityI)
  then show ?thesis using assms c2
    by (auto simp: slice_indices_def)
qed

lemma mod_neq_between:
  fixes k n c :: nat
  assumes "k < n" "n < k + c"
  shows "k mod c \<noteq> n mod c"
proof
  assume "k mod c = n mod c"
  then have "n mod c = k mod c" by simp
  moreover have "k \<le> n" using assms(1) by simp
  ultimately have "c dvd n - k"
    by (simp add: mod_eq_dvd_iff_nat)
  moreover have "0 < n - k" using assms(1) by simp
  ultimately have "c \<le> n - k" by (rule dvd_imp_le)
  with assms show False by simp
qed

text \<open>
  After \<open>N\<close> appends to a buffer whose cursor was 0, each of the last (at most
  capacity) values \<open>vs ! k\<close> sits at slot \<open>k mod capacity\<close> and at its mirror.
\<close>

lemma appends_recent:
  assumes "valid b" "index b = 0"
  shows "\<exists>b'. appends b vs = Inr b' \<and> valid b' \<and> max_size b' = max_size b
            \<and> index b' = int (length vs)
            \<and> (\<forall>k < length vs. length vs \<le> k + nat (max_size b) \<longrightarrow>
                  npa b' ! (k mod nat (max_size b)) = vs ! k
                \<and> npa b' ! (k mod nat (max_size b) + nat (max_size b)) = vs ! k)"
proof (induction vs rule: rev_induct)
  case Nil
  then show ?case using assms by simp
next
  case (snoc v vs)
  let ?C = "nat (max_size b)"
  let ?N = "length vs"
  from snoc obtain b' where b': "appends b vs = Inr b'" "valid b'" "max_size b' = max_size b"
    "index b' = int ?N"
    and old: "\<And>k. k < ?N \<Longrightarrow> ?N \<le> k + ?C \<Longrightarrow>
       npa b' ! (k mod ?C) = vs ! k \<and> npa b' ! (k mod ?C + ?C) = vs ! k"
    by blast
  have C: "0 < ?C" "int ?C = max_size b" using assms by (simp_all add: valid_def)
  have L: "length (npa b') = 2 * ?C" using b'(2,3) by (auto simp: valid_def)
  have p: "nat (index b' mod max_size b') = ?N mod ?C"
    using b'(3,4) C by (simp add: nat_mod_distrib)
  have q: "nat (index b' mod max_size b' + max_size b') = ?N mod ?C + ?C"
    using b'(3,4) C by (simp add: nat_add_distrib nat_mod_distrib)
  let ?b'' = "b'\<lparr>npa := (npa b')[?N mod ?C := v, ?N mod ?C + ?C := v], index := index b' + 1\<rparr>"
  have app: "append_rb b' v = Inr ?b''"
    using append_rb_valid [OF b'(2), of v] p q by simp
  have run: "appends b (vs @ [v]) = Inr ?b''"
    using b'(1) app by (simp add: appends_snoc)
  have v'': "valid ?b''" using app b'(2) by (rule valid_append_rb [rotated])
  have lt: "?N mod ?C < ?C" using C by simp
  have new: "npa ?b'' ! (k mod ?C) = (vs @ [v]) ! k
           \<and> npa ?b'' ! (k mod ?C + ?C) = (vs @ [v]) ! k"
    if k: "k < length (vs @ [v])" "length (vs @ [v]) \<le> k + ?C" for k
  proof (cases "k = ?N")
    case True
    then show ?thesis using L lt by (simp add: nth_list_update)
  next
    case False
    with k have kN: "k < ?N" "?N < k + ?C" by simp_all
    then have ne: "k mod ?C \<noteq> ?N mod ?C" by (rule mod_neq_between)
    have klt: "k mod ?C < ?C" using C by simp
    from old [of k] kN have o: "npa b' ! (k mod ?C) = vs ! k" "npa b' ! (k mod ?C + ?C) = vs ! k"
      by simp_all
    have d: "?N mod ?C \<noteq> k mod ?C" "?N mod ?C + ?C \<noteq> k mod ?C"
      "?N mod ?C \<noteq> k mod ?C + ?C" "?N mod ?C + ?C \<noteq> k mod ?C + ?C"
      using ne klt lt by linarith+
    have "(vs @ [v]) ! k = vs ! k" using kN by (simp add: nth_append)
    moreover have "npa ?b'' = (npa b')[?N mod ?C := v, ?N mod ?C + ?C := v]" by simp
    ultimately show ?thesis using d o by (simp only: nth_list_update_neq simp_thms)
  qed
  show ?case
    apply (rule exI [of _ ?b''])
    using run v'' b'(3,4) new by simp
qed

subsection \<open>The arrays that are read\<close>

lemma getElements_valid:
  assumes "valid b"
  shows "getElements b =
    Inr (map ((!) (npa b)) [nat (index b mod max_size b)..<nat (index b mod max_size b) + nat (max_size b)])"
proof -
  let ?C = "max_size b"
  from assms have C: "0 < ?C" and L: "int (length (npa b)) = 2 * ?C"
    by (simp_all add: valid_def)
  have m: "0 \<le> index b mod ?C" "index b mod ?C < ?C" using C by simp_all
  have "slice_indices (length (npa b)) (Slice (Some (index b mod ?C)) (Some (index b mod ?C + ?C)) None)
      = Inr [nat (index b mod ?C)..<nat (index b mod ?C + ?C)]"
    using m L by (intro slice_indices_plain) linarith+
  moreover have "nat (index b mod ?C + ?C) = nat (index b mod ?C) + nat ?C"
    using m C by (simp add: nat_add_distrib)
  ultimately show ?thesis using C by (simp add: getElements_def nd_getslice_def)
qed

lemma window_valid:
  assumes "valid b"
  shows "window b =
    (if index b < max_size b then Inr (map ((!) (npa b)) [0..<nat (index b)])
     else getElements b)"
proof (cases "index b < max_size b")
  case True
  from assms have C: "0 < max_size b" and L: "int (length (npa b)) = 2 * max_size b"
    and I: "0 \<le> index b"
    by (simp_all add: valid_def)
  have "slice_indices (length (npa b)) (Slice None (Some (index b)) None) = Inr [0..<nat (index b)]"
    using True C L I by (intro slice_indices_prefix) linarith+
  then show ?thesis using True by (simp add: window_def nd_getslice_def)
next
  case False
  then show ?thesis by (simp add: window_def getElements_def)
qed

lemma wrap_slot:
  fixes n c j :: nat
  assumes "0 < c" "c \<le> n" "j < c"
  shows "(n - c + j) mod c = (n mod c + j) mod c"
proof -
  have "(n - c + j) mod c = (n - c + j + c) mod c" by simp
  also have "n - c + j + c = n + j" using assms by simp
  also have "(n + j) mod c = (n mod c + j) mod c" by (simp only: mod_add_left_eq)
  finally show ?thesis .
qed

lemma wrap_high:
  fixes p c j :: nat
  assumes "p < c" "j < c" "\<not> p + j < c"
  shows "(p + j) mod c + c = p + j"
proof -
  have "(p + j) mod c = p + j - c" using assms by (simp add: mod_if)
  then show ?thesis using assms by simp
qed

lemma window_appends:
  assumes "valid b" "index b = 0"
  shows "\<exists>b'. appends b vs = Inr b' \<and> window b' = Inr (drop (length vs - nat (max_size b)) vs)"
proof -
  let ?C = "nat (max_size b)"
  let ?N = "length vs"
  from appends_recent [OF assms, of vs] obtain b' where
    b': "appends b vs = Inr b'" "valid b'" "max_size b' = max_size b" "index b' = int ?N"
    and rec: "\<And>k. k < ?N \<Longrightarrow> ?N \<le> k + ?C \<Longrightarrow>
       npa b' ! (k mod ?C) = vs ! k \<and> npa b' ! (k mod ?C + ?C) = vs ! k"
    by blast
  have C: "0 < ?C" "int ?C = max_size b" using assms by (simp_all add: valid_def)
  have "window b' = Inr (drop (?N - ?C) vs)"
  proof (cases "?N < ?C")
    case True
    then have lt: "index b' < max_size b'" using b'(3,4) C by linarith
    have "map ((!) (npa b')) [0..<?N] = vs"
    proof (rule nth_equalityI)
      show "length (map ((!) (npa b')) [0..<?N]) = length vs" by simp
    next
      fix k assume "k < length (map ((!) (npa b')) [0..<?N])"
      then have k: "k < ?N" by simp
      with True have "k mod ?C = k" "?N \<le> k + ?C" by simp_all
      with rec [of k] k show "map ((!) (npa b')) [0..<?N] ! k = vs ! k" by simp
    qed
    moreover have "?N - ?C = 0" using True by simp
    ultimately show ?thesis using lt b'(4) by (simp add: window_valid [OF b'(2)])
  next
    case False
    then have ge: "\<not> index b' < max_size b'" using b'(3,4) C by linarith
    let ?p = "?N mod ?C"
    have p: "nat (index b' mod max_size b') = ?p"
      using b'(3,4) C by (simp add: nat_mod_distrib)
    have plt: "?p < ?C" using C(1) by (rule mod_less_divisor)
    have "map ((!) (npa b')) [?p..<?p + ?C] = drop (?N - ?C) vs"
    proof (rule nth_equalityI)
      show "length (map ((!) (npa b')) [?p..<?p + ?C]) = length (drop (?N - ?C) vs)"
        using False by simp
    next
      fix j assume "j < length (map ((!) (npa b')) [?p..<?p + ?C])"
      then have j: "j < ?C" by simp
      let ?k = "?N - ?C + j"
      have k: "?k < ?N" "?N \<le> ?k + ?C" using j False by linarith+
      have km: "?k mod ?C = (?p + j) mod ?C"
        using C(1) False j by (intro wrap_slot) linarith+
      have "npa b' ! (?p + j) = vs ! ?k"
      proof (cases "?p + j < ?C")
        case True
        then have "(?p + j) mod ?C = ?p + j" by (rule mod_less)
        with km have "?k mod ?C = ?p + j" by (rule trans)
        with rec [OF k] show ?thesis by (simp only:)
      next
        case False
        with plt j have "(?p + j) mod ?C + ?C = ?p + j" by (rule wrap_high)
        with km have "?k mod ?C + ?C = ?p + j" by (simp only:)
        with rec [OF k] show ?thesis by (simp only:)
      qed
      moreover have "map ((!) (npa b')) [?p..<?p + ?C] ! j = npa b' ! (?p + j)"
        using j by simp
      moreover have "drop (?N - ?C) vs ! j = vs ! ?k"
        using j False by simp
      ultimately show "map ((!) (npa b')) [?p..<?p + ?C] ! j = drop (?N - ?C) vs ! j"
        by (simp only:)
    qed
    moreover have "nat (max_size b') = ?C" using b'(3) by simp
    ultimately show ?thesis using ge p
      by (simp only: window_valid [OF b'(2)] getElements_valid [OF b'(2)] if_False)
  qed
  with b'(1) show ?thesis by blast
qed

lemma init_valid:
  assumes "0 < C"
  shows "init C mem = Inr \<lparr>npa = map mem [0..<nat (C * 2)], max_size = C, index = 0\<rparr>"
    and "valid \<lparr>npa = map mem [0..<nat (C * 2)], max_size = C, index = 0\<rparr>"
  using assms by (simp_all add: init_def numpy_empty_def valid_def)

lemma len_appends:
  assumes "valid b" "index b = 0"
  shows "\<exists>b'. appends b vs = Inr b' \<and> len b' = min (int (length vs)) (max_size b)"
proof -
  from appends_recent [OF assms, of vs] obtain b' where
    b': "appends b vs = Inr b'" "max_size b' = max_size b" "index b' = int (length vs)"
    by blast
  have "len b' = min (int (length vs)) (max_size b)"
    using b'(2,3) by (simp add: len_def isFull_def min_def)
  with b'(1) show ?thesis by blast
qed

subsection \<open>What the calls leave alone\<close>

lemma store_pair_frame:
  "max_size (left (store_pair b i v)) = max_size b"
  "index (left (store_pair b i v)) = index b"
  by (simp_all add: store_pair_def split: sum.splits)

lemma store_range_frame:
  "max_size (left (store_range b s v)) = max_size b"
  "index (left (store_range b s v)) = index b"
  by (simp_all add: store_range_def Let_def split: sum.splits)

lemma setitem_items_frame:
  "max_size (left (setitem_items b xs v)) = max_size b \<and>
   index (left (setitem_items b xs v)) = index b"
proof (induction b xs v rule: setitem_items.induct)
  case (2 b i rest v)
  show ?case
  proof (cases "store_pair b (i + index b) v")
    case (Inl e)
    with store_pair_frame [of b "i + index b" v] show ?thesis by (cases e) simp
  next
    case (Inr b')
    with store_pair_frame [of b "i + index b" v] 2 show ?thesis by simp
  qed
qed simp_all

lemma exec_frame:
  "max_size (left (exec b c)) = max_size b"
  "c \<noteq> Clear \<Longrightarrow> index b \<le> index (left (exec b c))"
proof -
  show "max_size (left (exec b c)) = max_size b"
  proof (cases c)
    case (Append x)
    then show ?thesis using store_pair_frame(1) [of b "index b" "Scalar x"]
      by (auto simp: append_rb_def split: sum.splits)
  next
    case (SetItem sel v)
    then show ?thesis
      by (cases sel) (simp_all add: store_pair_frame store_range_frame setitem_items_frame)
  next
    case Clear
    then show ?thesis by (simp add: clear_def)
  qed
  show "index b \<le> index (left (exec b c))" if "c \<noteq> Clear"
  proof (cases c)
    case (Append x)
    then show ?thesis using store_pair_frame(2) [of b "index b" "Scalar x"]
      by (auto simp: append_rb_def split: sum.splits)
  next
    case (SetItem sel v)
    then show ?thesis
      by (cases sel) (simp_all add: store_pair_frame store_range_frame setitem_items_frame)
  next
    case Clear
    with that show ?thesis by simp
  qed
qed

lemma run_frame:
  "max_size (run b cs) = max_size b"
  "Clear \<notin> set cs \<Longrightarrow> index b \<le> index (run b cs)"
proof -
  show "max_size (run b cs) = max_size b"
    by (induction cs arbitrary: b) (simp_all add: exec_frame)
  show "Clear \<notin> set cs \<Longrightarrow> index b \<le> index (run b cs)"
  proof (induction cs arbitrary: b)
    case Nil
    then show ?case by simp
  next
    case (Cons c cs)
    then have "index b \<le> index (left (exec b c))" by (intro exec_frame(2)) auto
    moreover have "index (left (exec b c)) \<le> index (run (left (exec b c)) cs)"
      using Cons by simp
    ultimately show ?case by simp
  qed
qed

lemma valid_clear: "valid b \<Longrightarrow> valid (clear b)"
  by (simp add: valid_def clear_def)

lemma getElements_length:
  assumes "valid b"
  shows "\<exists>w. getElements b = Inr w \<and> length w = nat (max_size b)"
  by (simp add: getElements_valid [OF assms])

lemma getElements_full:
  assumes "0 < C" "C \<le> int (length vs)"
  shows "\<exists>b0 b'. init C mem = Inr b0 \<and> appends b0 vs = Inr b'
           \<and> getElements b' = Inr (drop (length vs - nat C) vs)"
proof -
  let ?b0 = "\<lparr>npa = map mem [0..<nat (C * 2)], max_size = C, index = 0\<rparr>"
  have v0: "valid ?b0" by (rule init_valid(2) [OF assms(1)])
  from appends_recent [OF v0, of vs] window_appends [OF v0, of vs]
  obtain b' where b': "appends ?b0 vs = Inr b'" "valid b'" "max_size b' = C"
     "index b' = int (length vs)" "window b' = Inr (drop (length vs - nat C) vs)"
    by auto
  have "window b' = getElements b'"
    using b'(3,4) assms(2) by (simp add: window_valid [OF b'(2)])
  with b'(1,5) init_valid(1) [OF assms(1), of mem] show ?thesis by auto
qed

subsection \<open>Stores of any value\<close>

lemma as_element_error: "as_element arr v = Inl e \<Longrightarrow> e = ValueError"
  by (cases v) (auto split: list.splits)

lemma as_element_after_store:
  assumes "as_element arr v = Inr x" "p < length arr"
  shows "as_element (arr[p := x]) v = Inr x"
proof (cases v)
  case (View ps)
  with assms(1) obtain q where q: "ps = [q]" "arr ! q = x"
    by (auto split: list.splits)
  have "arr[p := x] ! q = x"
    using q(2) assms(2) by (cases "q = p") simp_all
  with View q(1) show ?thesis by simp
qed (use assms(1) in \<open>auto split: list.splits\<close>)

lemma store_pair_cases:
  assumes "valid b"
  shows "store_pair b i v =
    (case as_element (npa b) v of
       Inl e \<Rightarrow> Inl (ValueError, b)
     | Inr x \<Rightarrow> Inr (b\<lparr>npa := (npa b)[nat (i mod max_size b) := x,
                                   nat (i mod max_size b + max_size b) := x]\<rparr>))"
proof -
  let ?C = "max_size b"
  from assms have C: "0 < ?C" and L: "int (length (npa b)) = 2 * ?C"
    by (simp_all add: valid_def)
  have m: "0 \<le> i mod ?C" "i mod ?C < ?C" using C by simp_all
  have 1: "norm_index (length (npa b)) (i mod ?C) = Inr (nat (i mod ?C))"
    using m L by (intro norm_index_in) linarith+
  have 2: "norm_index (length (npa b)) (i mod ?C + ?C) = Inr (nat (i mod ?C + ?C))"
    using m L by (intro norm_index_in) linarith+
  have p: "nat (i mod ?C) < length (npa b)" using m L by linarith
  show ?thesis
  proof (cases "as_element (npa b) v")
    case (Inl e)
    then have "e = ValueError" by (rule as_element_error)
    with Inl C 1 show ?thesis by (simp add: store_pair_def nd_set_def)
  next
    case (Inr x)
    from as_element_after_store [OF Inr p]
    have "as_element ((npa b)[nat (i mod ?C) := x]) v = Inr x" .
    with Inr C 1 2 show ?thesis by (simp add: store_pair_def nd_set_def)
  qed
qed

lemma store_pair_keeps_valid: "valid b \<Longrightarrow> valid (left (store_pair b i v))"
  by (cases "as_element (npa b) v") (simp_all add: store_pair_cases valid_def)

lemma pair_update_mirrored:
  assumes "p < C" "length arr = 2 * C" "s < C" "arr ! s = arr ! (s + C) \<or> s = p"
  shows "arr[p := x, p + C := x] ! s = arr[p := x, p + C := x] ! (s + C)"
  using assms by (auto simp: nth_list_update)

lemma pair_update_untouched:
  assumes "p < C" "s < C" "s \<noteq> p"
  shows "arr[p := x, p + C := x] ! s = arr ! s"
    and "arr[p := x, p + C := x] ! (s + C) = arr ! (s + C)"
  using assms by (auto simp: nth_list_update)

subsection \<open>Slices\<close>

lemma steps_within:
  fixes d m :: int
  assumes "0 < d" "int k < m div d + 1"
  shows "int k * d \<le> m"
proof -
  have "int k \<le> m div d" using assms(2) by simp
  then have "int k * d \<le> (m div d) * d" using assms(1) by (simp add: mult_right_mono)
  also have "(m div d) * d \<le> m"
  proof -
    have "m = (m div d) * d + m mod d" by simp
    moreover have "0 \<le> m mod d" using assms(1) by simp
    ultimately show ?thesis by linarith
  qed
  finally show ?thesis .
qed

lemma clip_inside: "0 \<le> x \<Longrightarrow> x < n \<Longrightarrow> clip n st x = x"
  by (simp add: clip_def)

text \<open>
  The two slices of a range write: the second selects the positions of the first, each
  moved up by the capacity, and the first stays below the capacity.
\<close>

lemma slice_indices_mirror:
  fixes C :: int
  assumes "0 \<le> lo" "lo < C" "0 \<le> hi" "hi < C" "int n = 2 * C"
  shows "slice_indices n (Slice (Some lo) (Some hi) st) = Inl ValueError \<or>
         (\<exists>ks. slice_indices n (Slice (Some lo) (Some hi) st) = Inr ks
              \<and> slice_indices n (Slice (Some (lo + C)) (Some (hi + C)) st)
                   = Inr (map (\<lambda>k. k + nat C) ks)
              \<and> (\<forall>k \<in> set ks. k < nat C))"
proof -
  define d where "d = (case st of None \<Rightarrow> 1 | Some k \<Rightarrow> k)"
  define cnt where "cnt = (if d < 0 then (if hi < lo then (lo - hi - 1) div (- d) + 1 else 0)
                      else (if lo < hi then (hi - lo - 1) div d + 1 else 0))"
  have c: "clip (int n) d lo = lo" "clip (int n) d hi = hi"
    "clip (int n) d (lo + C) = lo + C" "clip (int n) d (hi + C) = hi + C"
    using assms by (simp_all add: clip_inside)
  show ?thesis
  proof (cases "d = 0")
    case True
    then show ?thesis by (simp add: slice_indices_def d_def)
  next
    case False
    let ?ks = "map (\<lambda>k. nat (lo + int k * d)) [0..<nat cnt]"
    have 1: "slice_indices n (Slice (Some lo) (Some hi) st) = Inr ?ks"
      using False c(1,2) by (simp add: slice_indices_def d_def [symmetric] cnt_def Let_def)
    have "(if d < 0 then (if hi + C < lo + C then (lo + C - (hi + C) - 1) div (- d) + 1 else 0)
           else (if lo + C < hi + C then (hi + C - (lo + C) - 1) div d + 1 else 0)) = cnt"
      by (simp add: cnt_def)
    then have 2: "slice_indices n (Slice (Some (lo + C)) (Some (hi + C)) st)
        = Inr (map (\<lambda>k. nat (lo + C + int k * d)) [0..<nat cnt])"
      using False c(3,4) by (simp only: slice_indices_def d_def [symmetric] Let_def pyslice.sel option.case if_False)
    have b: "0 \<le> lo + int k * d \<and> lo + int k * d < C" if k: "k < nat cnt" for k
    proof (cases "d < 0")
      case True
      show ?thesis
      proof (cases "hi < lo")
        case h: True
        with True k have "int k < (lo - hi - 1) div (- d) + 1" by (simp add: cnt_def)
        with True have "int k * (- d) \<le> lo - hi - 1" by (intro steps_within) simp_all
        moreover have "int k * d \<le> 0" using True by (simp add: mult_nonneg_nonpos)
        ultimately show ?thesis using assms by simp
      next
        case False
        with True k show ?thesis by (simp add: cnt_def)
      qed
    next
      case dn: False
      with \<open>d \<noteq> 0\<close> have dp: "0 < d" by simp
      show ?thesis
      proof (cases "lo < hi")
        case True
        with dn k have "int k < (hi - lo - 1) div d + 1" by (simp add: cnt_def)
        with dp have "int k * d \<le> hi - lo - 1" by (intro steps_within) simp_all
        moreover have "0 \<le> int k * d" using dp by simp
        ultimately show ?thesis using assms by simp
      next
        case False
        with dn k show ?thesis by (simp add: cnt_def)
      qed
    qed
    have 3: "map (\<lambda>k. nat (lo + C + int k * d)) [0..<nat cnt] = map (\<lambda>k. k + nat C) ?ks"
    proof -
      have "nat (lo + C + int k * d) = nat (lo + int k * d) + nat C" if "k < nat cnt" for k
      proof -
        have "lo + C + int k * d = (lo + int k * d) + C" by simp
        moreover have "0 \<le> lo + int k * d" "0 \<le> C" using b [OF that] assms by linarith+
        ultimately show ?thesis by (simp only: nat_add_distrib)
      qed
      then show ?thesis by simp
    qed
    have 4: "\<forall>k \<in> set ?ks. k < nat C"
    proof
      fix x assume "x \<in> set ?ks"
      then obtain k where "k < nat cnt" "x = nat (lo + int k * d)" by auto
      with b [of k] show "x < nat C" by simp
    qed
    from 1 2 3 4 show ?thesis by simp
  qed
qed

lemma slice_indices_backward:
  assumes "0 \<le> hi" "hi \<le> lo" "lo < int n" "forward st"
  shows "slice_indices n (Slice (Some lo) (Some hi) st) = Inr []"
proof -
  define d where "d = (case st of None \<Rightarrow> 1 | Some k \<Rightarrow> k)"
  have d: "0 < d" using assms(4) by (cases st) (simp_all add: d_def)
  have "clip (int n) d lo = lo" "clip (int n) d hi = hi"
    using assms by (simp_all add: clip_inside)
  then show ?thesis using d assms(2)
    by (simp add: slice_indices_def d_def [symmetric] Let_def)
qed

lemma slice_indices_error: "slice_indices n s = Inl e \<Longrightarrow> e = ValueError"
  by (auto simp: slice_indices_def Let_def split: if_splits)

lemma nd_getslice_error: "nd_getslice arr s = Inl e \<Longrightarrow> e = ValueError"
  by (auto simp: nd_getslice_def split: sum.splits dest: slice_indices_error)

lemma run_snoc: "run b (cs @ [c]) = left (exec (run b cs) c)"
  by (induction cs arbitrary: b) simp_all

lemma run_appends: "appends b vs = Inr b' \<Longrightarrow> run b (map Append vs) = b'"
  by (induction vs arbitrary: b) (auto split: sum.splits)

subsection \<open>What every call keeps of a slot\<close>

lemma settled_refl: "valid b \<Longrightarrow> settled b b s"
  by (simp add: settled_def untouched_def)

lemma settled_trans:
  assumes "settled b b1 s" "settled b1 b2 s"
  shows "settled b b2 s"
proof -
  from assms have m: "max_size b1 = max_size b" "max_size b2 = max_size b" "valid b2"
    by (simp_all add: settled_def)
  have "mirrored b2 s \<or> untouched b b2 s"
  proof (cases "mirrored b2 s")
    case True
    then show ?thesis by simp
  next
    case False
    with assms(2) have u: "untouched b1 b2 s" by (simp add: settled_def)
    show ?thesis
    proof (cases "mirrored b1 s")
      case True
      with u m have "mirrored b2 s" by (simp add: mirrored_def untouched_def)
      then show ?thesis by simp
    next
      case False
      with assms(1) have "untouched b b1 s" by (simp add: settled_def)
      with u m show ?thesis by (simp add: untouched_def)
    qed
  qed
  with m show ?thesis by (simp add: settled_def)
qed

lemma settled_mirrored: "settled b b' s \<Longrightarrow> mirrored b s \<Longrightarrow> mirrored b' s"
  by (auto simp: settled_def mirrored_def untouched_def)

lemma store_pair_settled:
  assumes "valid b" "s < nat (max_size b)"
  shows "settled b (left (store_pair b i v)) s"
proof (cases "as_element (npa b) v")
  case (Inl e)
  then show ?thesis using assms(1) by (simp add: store_pair_cases settled_refl)
next
  case (Inr x)
  let ?C = "nat (max_size b)"
  let ?p = "nat (i mod max_size b)"
  let ?b' = "b\<lparr>npa := (npa b)[?p := x, ?p + ?C := x]\<rparr>"
  have C: "0 < max_size b" using assms(1) by (simp add: valid_def)
  have L: "length (npa b) = 2 * ?C" using assms(1) by (auto simp: valid_def)
  have p: "?p < ?C" using C by simp
  have q: "nat (i mod max_size b + max_size b) = ?p + ?C" using C by (simp add: nat_add_distrib)
  have e: "left (store_pair b i v) = ?b'" using Inr q by (simp add: store_pair_cases [OF assms(1)])
  have v: "valid ?b'" using assms(1) by (simp add: valid_def)
  have "mirrored ?b' s \<or> untouched b ?b' s"
  proof (cases "s = ?p")
    case True
    with pair_update_mirrored [OF p L assms(2), where x = x] show ?thesis
      by (simp add: mirrored_def)
  next
    case False
    with pair_update_untouched [OF p assms(2), where arr = "npa b" and x = x] show ?thesis
      by (simp add: untouched_def)
  qed
  with v e show ?thesis by (simp add: settled_def)
qed

lemma store_pair_establishes:
  assumes "valid b"
  shows "mirrored (left (store_pair b i (Scalar x))) (nat (i mod max_size b))"
proof -
  let ?C = "nat (max_size b)"
  let ?p = "nat (i mod max_size b)"
  have C: "0 < max_size b" using assms by (simp add: valid_def)
  have L: "length (npa b) = 2 * ?C" using assms by (auto simp: valid_def)
  have p: "?p < ?C" using C by simp
  have q: "nat (i mod max_size b + max_size b) = ?p + ?C" using C by (simp add: nat_add_distrib)
  from pair_update_mirrored [OF p L p, where x = x] q show ?thesis
    by (simp add: store_pair_cases [OF assms] mirrored_def)
qed

lemma fold_store_length: "length (fold (\<lambda>(k, x) a. a[k := x]) kvs arr) = length arr"
  by (induction kvs arbitrary: arr) auto

lemma fold_store_nth:
  "i < length arr \<Longrightarrow>
   fold (\<lambda>(k, x) a. a[k := x]) kvs arr ! i =
     (case map_of (rev kvs) i of None \<Rightarrow> arr ! i | Some x \<Rightarrow> x)"
proof (induction kvs arbitrary: arr)
  case Nil
  then show ?case by simp
next
  case (Cons kv kvs)
  obtain k x where kv: "kv = (k, x)" by (cases kv)
  have "fold (\<lambda>(k, x) a. a[k := x]) (kv # kvs) arr ! i =
        (case map_of (rev kvs) i of None \<Rightarrow> arr[k := x] ! i | Some y \<Rightarrow> y)"
    using Cons.IH [of "arr[k := x]"] Cons.prems kv by simp
  also have "\<dots> = (case map_of (rev (kv # kvs)) i of None \<Rightarrow> arr ! i | Some y \<Rightarrow> y)"
    using Cons.prems kv by (auto simp: map_add_def nth_list_update split: option.splits)
  finally show ?case .
qed

lemma map_of_shift:
  "map_of (map (\<lambda>(k, x). (k + C, x)) kvs) (s + C) = map_of kvs (s :: nat)"
  by (induction kvs) auto

lemma map_of_below:
  "\<forall>k \<in> fst ` set kvs. C \<le> k \<Longrightarrow> s < C \<Longrightarrow> map_of kvs (s :: nat) = None"
  by (induction kvs) auto

lemma map_of_above:
  "\<forall>k \<in> fst ` set kvs. k < C \<Longrightarrow> map_of kvs (s + C :: nat) = None"
  by (induction kvs) auto

lemma zip_shift: "zip (map (\<lambda>k. k + C) ks) xs = map (\<lambda>(k, x). (k + C, x)) (zip ks xs)"
  by (induction ks arbitrary: xs) (auto simp: zip_Cons1 split: list.splits)

text \<open>
  The two assignments of a range write with the same elements: each slot below the
  capacity ends equal to its mirror when it is selected or was equal before, and keeps
  both halves when it is not selected.
\<close>

lemma mirrored_stores:
  fixes xs :: "'a list" and arr :: "'a list" and ks :: "nat list"
  assumes "\<forall>k \<in> set ks. k < C" "length arr = 2 * C" "s < C"
  defines "a2 \<equiv> fold (\<lambda>(k, x) a. a[k := x]) (zip (map (\<lambda>k. k + C) ks) xs)
                   (fold (\<lambda>(k, x) a. a[k := x]) (zip ks xs) arr)"
  shows "a2 ! s = (case map_of (rev (zip ks xs)) s of None \<Rightarrow> arr ! s | Some x \<Rightarrow> x)"
    and "a2 ! (s + C) = (case map_of (rev (zip ks xs)) s of None \<Rightarrow> arr ! (s + C) | Some x \<Rightarrow> x)"
proof -
  let ?kvs = "zip ks xs"
  let ?sh = "map (\<lambda>(k, x). (k + C, x)) ?kvs"
  let ?a1 = "fold (\<lambda>(k, x) a. a[k := x]) ?kvs arr"
  have a2: "a2 = fold (\<lambda>(k, x) a. a[k := x]) ?sh ?a1" by (simp add: a2_def zip_shift)
  have l1: "length ?a1 = 2 * C" using assms(2) by (simp add: fold_store_length)
  have keys: "\<forall>k \<in> fst ` set (rev ?kvs). k < C"
    using assms(1) by (auto dest: set_zip_leftD)
  have keys': "\<forall>k \<in> fst ` set (rev ?sh). C \<le> k" by auto
  have n1: "map_of (rev ?sh) s = None" using keys' assms(3) by (rule map_of_below)
  have n2: "map_of (rev ?kvs) (s + C) = None" using keys by (rule map_of_above)
  have e: "map_of (rev ?sh) (s + C) = map_of (rev ?kvs) s"
    using map_of_shift [of C "rev ?kvs" s] by (simp add: rev_map)
  show "a2 ! s = (case map_of (rev ?kvs) s of None \<Rightarrow> arr ! s | Some x \<Rightarrow> x)"
    using l1 assms(2,3) n1 by (simp add: a2 fold_store_nth)
  have hi: "?a1 ! (s + C) = arr ! (s + C)"
    using assms(2,3) n2 by (simp add: fold_store_nth)
  have "a2 ! (s + C) = (case map_of (rev ?sh) (s + C) of None \<Rightarrow> ?a1 ! (s + C) | Some x \<Rightarrow> x)"
    unfolding a2 using l1 assms(3) by (intro fold_store_nth) simp
  then show "a2 ! (s + C) = (case map_of (rev ?kvs) s of None \<Rightarrow> arr ! (s + C) | Some x \<Rightarrow> x)"
    by (simp only: e hi)
qed

lemma length_items_of: "length (items_of arr v) = length (items_of arr' v)"
  by (cases v) simp_all

lemma items_of_plain: "plain v \<Longrightarrow> items_of arr v = items_of arr' v"
  by (cases v) simp_all

lemma broadcast_error: "broadcast arr v n = Inl e \<Longrightarrow> e = ValueError"
  by (auto simp: broadcast_def Let_def split: if_splits)

lemma broadcast_length: "broadcast arr v n = Inr xs \<Longrightarrow> length xs = n"
  by (auto simp: broadcast_def Let_def split: if_splits)

lemma broadcast_again:
  assumes "broadcast arr v n = Inr xs"
  shows "\<exists>xs'. broadcast arr' v n = Inr xs' \<and> (plain v \<longrightarrow> xs' = xs)"
proof -
  have l: "length (items_of arr' v) = length (items_of arr v)" by (rule length_items_of)
  show ?thesis
  proof (cases "plain v")
    case True
    then have "items_of arr' v = items_of arr v" by (rule items_of_plain)
    with assms show ?thesis by (simp add: broadcast_def)
  next
    case False
    with assms l show ?thesis by (auto simp: broadcast_def Let_def split: if_splits)
  qed
qed

lemma store_range_cases:
  assumes "valid b"
  shows "store_range b r v = Inl (ValueError, b) \<or>
         (\<exists>ks xs xs'. (\<forall>k \<in> set ks. k < nat (max_size b))
            \<and> length xs = length ks \<and> length xs' = length ks \<and> (plain v \<longrightarrow> xs' = xs)
            \<and> store_range b r v =
                Inr (b\<lparr>npa := fold (\<lambda>(k, x) a. a[k := x])
                                  (zip (map (\<lambda>k. k + nat (max_size b)) ks) xs')
                                  (fold (\<lambda>(k, x) a. a[k := x]) (zip ks xs) (npa b))\<rparr>))"
proof -
  let ?C = "max_size b"
  define lo where "lo = ((case start r of None \<Rightarrow> 0 | Some x \<Rightarrow> x) + index b) mod ?C"
  define hi where "hi = ((case stop r of None \<Rightarrow> 0 | Some x \<Rightarrow> x) + index b) mod ?C"
  from assms have C: "0 < ?C" and L: "int (length (npa b)) = 2 * ?C"
    by (simp_all add: valid_def)
  have rg: "0 \<le> lo" "lo < ?C" "0 \<le> hi" "hi < ?C" using C by (simp_all add: lo_def hi_def)
  have sr: "store_range b r v =
     (case nd_setslice (npa b) (Slice (Some lo) (Some hi) (step r)) v of
        Inl e \<Rightarrow> Inl (e, b)
      | Inr a1 \<Rightarrow>
          (case nd_setslice a1 (Slice (Some (lo + ?C)) (Some (hi + ?C)) (step r)) v of
             Inl e \<Rightarrow> Inl (e, b\<lparr>npa := a1\<rparr>)
           | Inr a2 \<Rightarrow> Inr (b\<lparr>npa := a2\<rparr>)))"
    unfolding store_range_def Let_def lo_def hi_def using C by simp
  from slice_indices_mirror [OF rg L, of "step r"] show ?thesis
  proof
    assume "slice_indices (length (npa b)) (Slice (Some lo) (Some hi) (step r)) = Inl ValueError"
    then show ?thesis by (simp add: sr nd_setslice_def)
  next
    assume "\<exists>ks. slice_indices (length (npa b)) (Slice (Some lo) (Some hi) (step r)) = Inr ks
              \<and> slice_indices (length (npa b)) (Slice (Some (lo + ?C)) (Some (hi + ?C)) (step r))
                   = Inr (map (\<lambda>k. k + nat ?C) ks)
              \<and> (\<forall>k \<in> set ks. k < nat ?C)"
    then obtain ks where ks: "slice_indices (length (npa b)) (Slice (Some lo) (Some hi) (step r)) = Inr ks"
      "slice_indices (length (npa b)) (Slice (Some (lo + ?C)) (Some (hi + ?C)) (step r))
                   = Inr (map (\<lambda>k. k + nat ?C) ks)"
      "\<forall>k \<in> set ks. k < nat ?C" by blast
    show ?thesis
    proof (cases "broadcast (npa b) v (length ks)")
      case (Inl e)
      then have "e = ValueError" by (rule broadcast_error)
      with Inl ks(1) show ?thesis by (simp add: sr nd_setslice_def)
    next
      case (Inr xs)
      let ?a1 = "fold (\<lambda>(k, x) a. a[k := x]) (zip ks xs) (npa b)"
      from broadcast_again [OF Inr, of ?a1] obtain xs' where
        xs': "broadcast ?a1 v (length ks) = Inr xs'" "plain v \<longrightarrow> xs' = xs" by blast
      have "store_range b r v =
                Inr (b\<lparr>npa := fold (\<lambda>(k, x) a. a[k := x])
                                  (zip (map (\<lambda>k. k + nat ?C) ks) xs') ?a1\<rparr>)"
        using ks(1,2) Inr xs'(1) by (simp add: sr nd_setslice_def fold_store_length)
      with ks(3) xs'(2) broadcast_length [OF Inr] broadcast_length [OF xs'(1)]
      show ?thesis by blast
    qed
  qed
qed

lemma store_range_keeps_valid: "valid b \<Longrightarrow> valid (left (store_range b r v))"
  using store_range_cases [of b r v] by (auto simp: valid_def fold_store_length)

lemma store_range_error:
  "valid b \<Longrightarrow> store_range b r v = Inl (e, b') \<Longrightarrow> e = ValueError"
  using store_range_cases [of b r v] by auto

lemma store_range_settled:
  assumes "valid b" "s < nat (max_size b)" "plain v"
  shows "settled b (left (store_range b r v)) s"
proof -
  let ?C = "nat (max_size b)"
  have L: "length (npa b) = 2 * ?C" using assms(1) by (auto simp: valid_def)
  from store_range_cases [OF assms(1), of r v] show ?thesis
  proof
    assume "store_range b r v = Inl (ValueError, b)"
    then show ?thesis using assms(1) by (simp add: settled_refl)
  next
    assume "\<exists>ks xs xs'. (\<forall>k \<in> set ks. k < ?C)
            \<and> length xs = length ks \<and> length xs' = length ks \<and> (plain v \<longrightarrow> xs' = xs)
            \<and> store_range b r v =
                Inr (b\<lparr>npa := fold (\<lambda>(k, x) a. a[k := x]) (zip (map (\<lambda>k. k + ?C) ks) xs')
                                  (fold (\<lambda>(k, x) a. a[k := x]) (zip ks xs) (npa b))\<rparr>)"
    then obtain ks xs where ks: "\<forall>k \<in> set ks. k < ?C"
      and sr: "store_range b r v =
                Inr (b\<lparr>npa := fold (\<lambda>(k, x) a. a[k := x]) (zip (map (\<lambda>k. k + ?C) ks) xs)
                                  (fold (\<lambda>(k, x) a. a[k := x]) (zip ks xs) (npa b))\<rparr>)"
      using assms(3) by auto
    let ?a2 = "fold (\<lambda>(k, x) a. a[k := x]) (zip (map (\<lambda>k. k + ?C) ks) xs)
                                  (fold (\<lambda>(k, x) a. a[k := x]) (zip ks xs) (npa b))"
    note m = mirrored_stores [OF ks L assms(2), of xs]
    have "?a2 ! s = ?a2 ! (s + ?C) \<or> (?a2 ! s = npa b ! s \<and> ?a2 ! (s + ?C) = npa b ! (s + ?C))"
      unfolding m by (cases "map_of (rev (zip ks xs)) s") simp_all
    moreover have "valid (b\<lparr>npa := ?a2\<rparr>)"
      using assms(1) by (simp add: valid_def fold_store_length)
    ultimately show ?thesis
      by (simp add: sr settled_def mirrored_def untouched_def)
  qed
qed

lemma broadcast_scalar: "broadcast arr (Scalar x) n = Inr (replicate n x)"
  by (cases "n = 1") (simp_all add: broadcast_def)

lemma map_of_zip_some:
  assumes "s \<in> set ks" "length xs = length ks"
  shows "\<exists>y. map_of (rev (zip ks xs)) s = Some y"
proof -
  have "fst ` set (rev (zip ks xs)) = set (map fst (zip ks xs))" by simp
  also have "\<dots> = set ks" using assms(2) by (simp only: map_fst_zip)
  finally have "s \<in> fst ` set (rev (zip ks xs))" using assms(1) by simp
  then have "map_of (rev (zip ks xs)) s \<noteq> None" by (simp only: map_of_eq_None_iff not_not)
  then show ?thesis by blast
qed

text \<open>
  A range write of an element makes the two halves equal at every slot it selects.
\<close>

lemma store_range_establishes:
  assumes "valid b" "s \<in> set (range_slots b r)"
  shows "mirrored (left (store_range b r (Scalar x))) s"
proof -
  let ?C = "max_size b"
  define lo where "lo = ((case start r of None \<Rightarrow> 0 | Some x \<Rightarrow> x) + index b) mod ?C"
  define hi where "hi = ((case stop r of None \<Rightarrow> 0 | Some x \<Rightarrow> x) + index b) mod ?C"
  from assms(1) have C: "0 < ?C" and L: "int (length (npa b)) = 2 * ?C"
    by (simp_all add: valid_def)
  have L': "length (npa b) = 2 * nat ?C" using L C by linarith
  have rg: "0 \<le> lo" "lo < ?C" "0 \<le> hi" "hi < ?C" using C by (simp_all add: lo_def hi_def)
  have sr: "store_range b r (Scalar x) =
     (case nd_setslice (npa b) (Slice (Some lo) (Some hi) (step r)) (Scalar x) of
        Inl e \<Rightarrow> Inl (e, b)
      | Inr a1 \<Rightarrow>
          (case nd_setslice a1 (Slice (Some (lo + ?C)) (Some (hi + ?C)) (step r)) (Scalar x) of
             Inl e \<Rightarrow> Inl (e, b\<lparr>npa := a1\<rparr>)
           | Inr a2 \<Rightarrow> Inr (b\<lparr>npa := a2\<rparr>)))"
    unfolding store_range_def Let_def lo_def hi_def using C by simp
  have rs: "range_slots b r =
     (case slice_indices (length (npa b)) (Slice (Some lo) (Some hi) (step r)) of
        Inl e \<Rightarrow> [] | Inr ks \<Rightarrow> ks)"
    unfolding range_slots_def lo_def hi_def by simp
  from slice_indices_mirror [OF rg L, of "step r"] show ?thesis
  proof
    assume "slice_indices (length (npa b)) (Slice (Some lo) (Some hi) (step r)) = Inl ValueError"
    with assms(2) rs show ?thesis by simp
  next
    assume "\<exists>ks. slice_indices (length (npa b)) (Slice (Some lo) (Some hi) (step r)) = Inr ks
              \<and> slice_indices (length (npa b)) (Slice (Some (lo + ?C)) (Some (hi + ?C)) (step r))
                   = Inr (map (\<lambda>k. k + nat ?C) ks)
              \<and> (\<forall>k \<in> set ks. k < nat ?C)"
    then obtain ks where ks: "slice_indices (length (npa b)) (Slice (Some lo) (Some hi) (step r)) = Inr ks"
      "slice_indices (length (npa b)) (Slice (Some (lo + ?C)) (Some (hi + ?C)) (step r))
                   = Inr (map (\<lambda>k. k + nat ?C) ks)"
      "\<forall>k \<in> set ks. k < nat ?C" by blast
    let ?xs = "replicate (length ks) x"
    let ?a2 = "fold (\<lambda>(k, x) a. a[k := x]) (zip (map (\<lambda>k. k + nat ?C) ks) ?xs)
                 (fold (\<lambda>(k, x) a. a[k := x]) (zip ks ?xs) (npa b))"
    have s: "s \<in> set ks" using assms(2) rs ks(1) by simp
    then have sC: "s < nat ?C" using ks(3) by simp
    have e: "store_range b r (Scalar x) = Inr (b\<lparr>npa := ?a2\<rparr>)"
      using ks(1,2) by (simp add: sr nd_setslice_def broadcast_scalar fold_store_length)
    from map_of_zip_some [OF s, of ?xs] obtain y where
      y: "map_of (rev (zip ks ?xs)) s = Some y" by auto
    note m = mirrored_stores [OF ks(3) L' sC, of ?xs]
    have "?a2 ! s = ?a2 ! (s + nat ?C)" unfolding m y by simp
    then show ?thesis by (simp add: e mirrored_def)
  qed
qed

lemma setitem_items_keeps_valid: "valid b \<Longrightarrow> valid (left (setitem_items b xs v))"
proof (induction b xs v rule: setitem_items.induct)
  case (2 b i rest v)
  show ?case
  proof (cases "store_pair b (i + index b) v")
    case (Inl e)
    with store_pair_keeps_valid [OF "2.prems", of "i + index b" v] show ?thesis
      by (cases e) simp
  next
    case (Inr b')
    with store_pair_keeps_valid [OF "2.prems", of "i + index b" v] "2.IH" show ?thesis by simp
  qed
qed simp_all

lemma setitem_items_settled:
  assumes "valid b" "s < nat (max_size b)"
  shows "settled b (left (setitem_items b xs v)) s"
  using assms
proof (induction b xs v rule: setitem_items.induct)
  case (2 b i rest v)
  note st = store_pair_settled [OF "2.prems", of "i + index b" v]
  show ?case
  proof (cases "store_pair b (i + index b) v")
    case (Inl e)
    with st show ?thesis by (cases e) simp
  next
    case (Inr b')
    with st have s1: "settled b b' s" by simp
    then have "valid b'" "s < nat (max_size b')" using "2.prems"(2) by (simp_all add: settled_def)
    from "2.IH" [OF Inr this] have "settled b' (left (setitem_items b' rest v)) s" .
    with s1 have "settled b (left (setitem_items b' rest v)) s" by (rule settled_trans)
    with Inr show ?thesis by simp
  qed
qed (simp_all add: settled_refl)

lemma exec_keeps_valid:
  assumes "valid b"
  shows "valid (left (exec b c))"
proof (cases c)
  case (Append x)
  then show ?thesis using assms by (simp add: append_rb_valid valid_def)
next
  case (SetItem sel v)
  then show ?thesis using assms
    by (cases sel)
      (simp_all add: setitem_items_keeps_valid store_pair_keeps_valid store_range_keeps_valid)
next
  case Clear
  then show ?thesis using assms by (simp add: valid_clear)
qed

lemma exec_settled:
  assumes "valid b" "s < nat (max_size b)" "plain_call c"
  shows "settled b (left (exec b c)) s"
proof (cases c)
  case (Append x)
  from store_pair_settled [OF assms(1,2), of "index b" "Scalar x"]
  have "settled b (left (append_rb b x)) s"
    by (simp add: append_rb_def store_pair_valid [OF assms(1)] settled_def mirrored_def
        untouched_def valid_def)
  with Append show ?thesis by simp
next
  case (SetItem sel v)
  with assms(3) have "plain v" by simp
  with SetItem assms(1,2) show ?thesis
    by (cases sel)
      (simp_all add: setitem_items_settled store_pair_settled store_range_settled settled_refl)
next
  case Clear
  then show ?thesis using assms(1)
    by (simp add: settled_def valid_clear) (simp add: clear_def mirrored_def untouched_def)
qed

lemma run_keeps_valid: "valid b \<Longrightarrow> valid (run b cs)"
  by (induction cs arbitrary: b) (simp_all add: exec_keeps_valid)

lemma run_settled:
  assumes "valid b" "s < nat (max_size b)" "list_all plain_call cs"
  shows "settled b (run b cs) s"
  using assms
proof (induction cs arbitrary: b)
  case Nil
  then show ?case by (simp add: settled_refl)
next
  case (Cons c cs)
  from Cons.prems have s1: "settled b (left (exec b c)) s" by (intro exec_settled) simp_all
  then have "valid (left (exec b c))" "s < nat (max_size (left (exec b c)))"
    using Cons.prems(2) by (simp_all add: settled_def)
  from Cons.IH [OF this] Cons.prems(3)
  have "settled (left (exec b c)) (run (left (exec b c)) cs) s" by simp
  with s1 show ?case by (simp add: settled_trans)
qed

lemma run_append: "run b (cs @ ds) = run (run b cs) ds"
  by (induction cs arbitrary: b) simp_all

subsection \<open>Runs of appends\<close>

lemma exec_append_state:
  assumes "valid b"
  shows "index (left (exec b (Append x))) = index b + 1"
    and "max_size (left (exec b (Append x))) = max_size b"
    and "mirrored (left (exec b (Append x))) (nat (index b mod max_size b))"
proof -
  from store_pair_establishes [OF assms, of "index b" x]
  show "mirrored (left (exec b (Append x))) (nat (index b mod max_size b))"
    by (simp add: append_rb_def store_pair_valid [OF assms] mirrored_def)
qed (simp_all add: append_rb_valid [OF assms])

lemma list_all_appends: "list_all plain_call (map Append vs)"
  by (induction vs) simp_all

text \<open>
  The \<open>k\<close>-th of a run of appends, counted from 0, makes the slot at the cursor's
  remainder equal to its mirror, and the later appends keep it so.
\<close>

lemma appends_cover:
  assumes "valid b" "k < length vs"
  shows "mirrored (run b (map Append vs)) (nat ((index b + int k) mod max_size b))"
  using assms
proof (induction vs arbitrary: b k)
  case Nil
  then show ?case by simp
next
  case (Cons x vs)
  let ?b1 = "left (exec b (Append x))"
  note a = exec_append_state [OF Cons.prems(1), of x]
  have v1: "valid ?b1" using Cons.prems(1) by (rule exec_keeps_valid)
  have C: "0 < max_size b" using Cons.prems(1) by (simp add: valid_def)
  show ?case
  proof (cases k)
    case 0
    let ?s = "nat (index b mod max_size b)"
    have "?s < nat (max_size ?b1)" using C a(2) by simp
    from run_settled [OF v1 this list_all_appends, of vs] a(3)
    have "mirrored (run ?b1 (map Append vs)) ?s" by (rule settled_mirrored)
    with 0 show ?thesis by simp
  next
    case (Suc k')
    with Cons.prems(2) have "k' < length vs" by simp
    from Cons.IH [OF v1 this]
    have "mirrored (run ?b1 (map Append vs)) (nat ((index b + 1 + int k') mod max_size b))"
      by (simp only: a(1,2))
    moreover have "index b + 1 + int k' = index b + int k" using Suc by simp
    ultimately show ?thesis by simp
  qed
qed

lemma appends_fill:
  assumes "valid b" "nat (max_size b) \<le> length vs" "s < nat (max_size b)"
  shows "mirrored (run b (map Append vs)) s"
proof -
  let ?C = "max_size b"
  let ?k = "nat ((int s - index b) mod ?C)"
  have C: "0 < ?C" using assms(1) by (simp add: valid_def)
  have kC: "0 \<le> (int s - index b) mod ?C" "(int s - index b) mod ?C < ?C" using C by simp_all
  then have k: "?k < length vs" using assms(2) by linarith
  have "(index b + int ?k) mod ?C = (index b + (int s - index b) mod ?C) mod ?C"
    using kC by simp
  also have "\<dots> = (index b + (int s - index b)) mod ?C" by (simp only: mod_add_right_eq)
  also have "\<dots> = int s mod ?C" by simp
  also have "\<dots> = int s" using assms(3) by simp
  finally have "nat ((index b + int ?k) mod ?C) = s" by simp
  with appends_cover [OF assms(1) k] show ?thesis by simp
qed

subsection \<open>Writes through a list of items\<close>

lemma fold_update_length: "length (fold (\<lambda>k a. a[k := v]) ks arr) = length arr"
  by (induction ks arbitrary: arr) simp_all

lemma fold_update_nth:
  "i < length arr \<Longrightarrow>
   fold (\<lambda>k a. a[k := v]) ks arr ! i = (if i \<in> set ks then v else arr ! i)"
proof (induction ks arbitrary: arr)
  case Nil
  then show ?case by simp
next
  case (Cons k ks)
  then show ?case by (auto simp: nth_list_update)
qed

lemma setitem_items_stops:
  assumes "valid b" "list_ex is_slice xs"
  shows "setitem_items b xs (Scalar x) =
           Inl (AttributeError,
                b\<lparr>npa := fold (\<lambda>k a. a[k := x])
                       (concat (map (item_slots (max_size b) (index b))
                                    (takeWhile (\<lambda>it. \<not> is_slice it) xs)))
                       (npa b)\<rparr>)"
  using assms
proof (induction xs arbitrary: b)
  case Nil
  then show ?case by simp
next
  case (Cons it xs)
  show ?case
  proof (cases it)
    case (IntItem i)
    let ?p = "nat ((i + index b) mod max_size b)"
    let ?q = "nat ((i + index b) mod max_size b + max_size b)"
    let ?b1 = "b\<lparr>npa := (npa b)[?p := x, ?q := x]\<rparr>"
    have sp: "store_pair b (i + index b) (Scalar x) = Inr ?b1"
      by (rule store_pair_valid [OF Cons.prems(1)])
    have v1: "valid ?b1" using Cons.prems(1) by (simp add: valid_def)
    have "list_ex is_slice xs" using Cons.prems(2) IntItem by simp
    from Cons.IH [OF v1 this] sp IntItem show ?thesis by simp
  next
    case (SliceItem s)
    then show ?thesis by simp
  next
    case OtherItem
    with Cons show ?thesis by simp
  qed
qed

lemma setitem_items_plain_list:
  assumes "valid b" "\<not> list_ex is_slice xs"
  shows "setitem_items b xs (Scalar x) =
           Inr (b\<lparr>npa := fold (\<lambda>k a. a[k := x])
                       (concat (map (item_slots (max_size b) (index b)) xs)) (npa b)\<rparr>)"
  using assms
proof (induction xs arbitrary: b)
  case Nil
  then show ?case by simp
next
  case (Cons it xs)
  show ?case
  proof (cases it)
    case (IntItem i)
    let ?p = "nat ((i + index b) mod max_size b)"
    let ?q = "nat ((i + index b) mod max_size b + max_size b)"
    let ?b1 = "b\<lparr>npa := (npa b)[?p := x, ?q := x]\<rparr>"
    have sp: "store_pair b (i + index b) (Scalar x) = Inr ?b1"
      by (rule store_pair_valid [OF Cons.prems(1)])
    have v1: "valid ?b1" using Cons.prems(1) by (simp add: valid_def)
    have "\<not> list_ex is_slice xs" using Cons.prems(2) by simp
    from Cons.IH [OF v1 this] sp IntItem show ?thesis by simp
  next
    case (SliceItem s)
    with Cons.prems(2) show ?thesis by simp
  next
    case OtherItem
    with Cons show ?thesis by simp
  qed
qed

lemma takeWhile_no_slice: "\<not> list_ex is_slice (takeWhile (\<lambda>it. \<not> is_slice it) xs)"
  by (induction xs) simp_all

lemma item_slots_stored:
  fixes x :: 'a and b :: "'a NumPyRingBuffer"
  assumes "valid b" "IntItem i \<in> set xs"
  defines "arr \<equiv> fold (\<lambda>k a. a[k := x])
                     (concat (map (item_slots (max_size b) (index b)) xs)) (npa b)"
  shows "arr ! nat ((i + index b) mod max_size b) = x"
    and "arr ! nat ((i + index b) mod max_size b + max_size b) = x"
proof -
  let ?C = "max_size b"
  let ?ks = "concat (map (item_slots ?C (index b)) xs)"
  from assms(1) have C: "0 < ?C" and L: "int (length (npa b)) = 2 * ?C"
    by (simp_all add: valid_def)
  have m: "0 \<le> (i + index b) mod ?C" "(i + index b) mod ?C < ?C" using C by simp_all
  have r: "nat ((i + index b) mod ?C) < length (npa b)"
    "nat ((i + index b) mod ?C + ?C) < length (npa b)" using m L by linarith+
  have "set (item_slots ?C (index b) (IntItem i)) \<subseteq> set ?ks"
    using assms(2) by (auto simp del: item_slots.simps)
  then have i: "nat ((i + index b) mod ?C) \<in> set ?ks" "nat ((i + index b) mod ?C + ?C) \<in> set ?ks"
    by simp_all
  show "arr ! nat ((i + index b) mod ?C) = x"
    using fold_update_nth [OF r(1), where v = x and ks = ?ks] i(1) by (simp add: arr_def)
  show "arr ! nat ((i + index b) mod ?C + ?C) = x"
    using fold_update_nth [OF r(2), where v = x and ks = ?ks] i(2) by (simp add: arr_def)
qed

subsection \<open>Clearing\<close>

text \<open>
  \<^verbatim>\<open>clear()\<close> changes the cursor only, and the next append makes its value the
  whole array that the reductions are computed over.
\<close>

lemma clear_then_append:
  assumes "valid b"
  shows "npa (clear b) = npa b \<and> max_size (clear b) = max_size b \<and> index (clear b) = 0
       \<and> len (clear b) = 0
       \<and> (\<exists>b'. append_rb (clear b) v = Inr b' \<and> len b' = 1 \<and> window b' = Inr [v])"
proof -
  have v: "valid (clear b)" using assms by (rule valid_clear)
  have i: "index (clear b) = 0" by (simp add: clear_def)
  have C: "0 < max_size b" using assms by (simp add: valid_def)
  from window_appends [OF v i, of "[v]"] obtain b' where
    a: "appends (clear b) [v] = Inr b'" and w: "window b' = Inr (drop (1 - nat (max_size (clear b))) [v])"
    by auto
  have "1 - nat (max_size (clear b)) = 0" using C by (simp add: clear_def)
  with w have w': "window b' = Inr [v]" by simp
  from a have a': "append_rb (clear b) v = Inr b'" by (simp split: sum.splits)
  from len_appends [OF v i, of "[v]"] a have "len b' = min 1 (max_size (clear b))" by auto
  with C have l: "len b' = 1" by (simp add: clear_def)
  have "len (clear b) = 0" using C by (simp add: len_def isFull_def clear_def)
  with a' l w' show ?thesis by (simp add: clear_def)
qed

section \<open>The claims\<close>

text \<open>
  Claim C2. For every capacity \<open>C > 0\<close> and every list \<open>vs\<close> of values appended to a
  newly constructed buffer, with no clear in between, every append returns and
  \<^verbatim>\<open>len(buffer)\<close> is then \<open>min (length vs) C\<close>. As \<open>vs\<close> is any list, this is the length
  after each append of a longer sequence.
\<close>

theorem length_after_appends:
  assumes "0 < C"
  shows "\<exists>b0 b'. init C mem = Inr b0 \<and> appends b0 vs = Inr b'
           \<and> len b' = min (int (length vs)) C"
proof -
  let ?b0 = "\<lparr>npa = map mem [0..<nat (C * 2)], max_size = C, index = 0\<rparr>"
  from len_appends [OF init_valid(2) [OF assms, of mem], of vs]
  obtain b' where "appends ?b0 vs = Inr b'" "len b' = min (int (length vs)) C"
    by auto
  with init_valid(1) [OF assms, of mem] show ?thesis by blast
qed

theorem length_after_appends_witness:
  "(0::int) < 2 \<and> (\<exists>b0 b'. init 2 stale = Inr b0 \<and> appends b0 [5, 6, 7] = Inr b'
           \<and> len b' = min (int (length [5, 6, 7 :: int])) 2)"
  using length_after_appends [of 2 stale "[5, 6, 7]"] by simp

text \<open>
  Claim C3. A reduction asked of the buffer (\<^verbatim>\<open>min\<close>, \<^verbatim>\<open>max\<close>, \<^verbatim>\<open>mean\<close>, \<^verbatim>\<open>std\<close>,
  \<^verbatim>\<open>sum\<close>: any function \<open>a\<close> of an array) is computed over the current logical window.
  After the values \<open>vs\<close> have been appended to a newly constructed buffer of capacity
  \<open>C > 0\<close> it returns \<open>a\<close> of the last \<open>min (length vs) C\<close> values in order: all of
  \<open>vs\<close> while the buffer is not full, the last \<open>C\<close> of them once it is, which is the
  reduction of an independently built array of those values.
\<close>

theorem reductions_over_window:
  assumes "0 < C"
  shows "\<exists>b0 b'. init C mem = Inr b0 \<and> appends b0 vs = Inr b'
           \<and> getattr b' a = Inr (a (drop (length vs - nat C) vs))"
proof -
  let ?b0 = "\<lparr>npa = map mem [0..<nat (C * 2)], max_size = C, index = 0\<rparr>"
  from window_appends [OF init_valid(2) [OF assms, of mem], of vs]
  obtain b' where "appends ?b0 vs = Inr b'" "window b' = Inr (drop (length vs - nat C) vs)"
    by auto
  then have "appends ?b0 vs = Inr b' \<and> getattr b' a = Inr (a (drop (length vs - nat C) vs))"
    by (simp add: getattr_def)
  with init_valid(1) [OF assms, of mem] show ?thesis by blast
qed

theorem reductions_over_window_witness:
  "(0::int) < 2 \<and> (\<exists>b0 b'. init 2 stale = Inr b0 \<and> appends b0 [5, 6, 7] = Inr b'
           \<and> getattr b' sum_list = Inr (sum_list (drop (length [5, 6, 7 :: int] - nat 2) [5, 6, 7])))"
  using reductions_over_window [of 2 stale "[5, 6, 7]" sum_list] by simp

text \<open>
  Claim C7. \<^verbatim>\<open>isFull()\<close> is true exactly when the cursor has reached the capacity.
  After the values \<open>vs\<close> have been appended to a newly constructed buffer of capacity
  \<open>C > 0\<close> it is true exactly when \<open>C \<le> length vs\<close>; from then on it stays true
  through every further call that is not \<^verbatim>\<open>clear\<close> (appends and writes, also writes
  that raise), and \<^verbatim>\<open>clear\<close> makes it false.
\<close>

theorem isFull_until_clear:
  assumes "0 < C"
  shows "\<exists>b0 b'. init C mem = Inr b0 \<and> appends b0 vs = Inr b'
           \<and> isFull b' = (max_size b' \<le> index b')
           \<and> isFull b' = (C \<le> int (length vs))
           \<and> (C \<le> int (length vs) \<and> Clear \<notin> set cs \<longrightarrow> isFull (run b' cs))
           \<and> \<not> isFull (clear (run b' cs))"
proof -
  let ?b0 = "\<lparr>npa = map mem [0..<nat (C * 2)], max_size = C, index = 0\<rparr>"
  from appends_recent [OF init_valid(2) [OF assms, of mem], of vs]
  obtain b' where b': "appends ?b0 vs = Inr b'" "max_size b' = C" "index b' = int (length vs)"
    by auto
  have 1: "isFull b' = (C \<le> int (length vs))" using b' by (simp add: isFull_def)
  have 2: "isFull (run b' cs)" if "C \<le> int (length vs)" "Clear \<notin> set cs"
    using run_frame(1) [of b' cs] run_frame(2) [OF that(2), of b'] that(1) b'
    by (simp add: isFull_def)
  have 3: "\<not> isFull (clear (run b' cs))"
    using run_frame(1) [of b' cs] b'(2) assms by (simp add: isFull_def clear_def)
  from init_valid(1) [OF assms, of mem] b'(1) 1 2 3 show ?thesis
    by (auto simp: isFull_def)
qed

theorem isFull_until_clear_witness:
  "(0::int) < 2 \<and> (\<exists>b0 b'. init 2 stale = Inr b0 \<and> appends b0 [5, 6, 7] = Inr b'
           \<and> isFull b' = (max_size b' \<le> index b')
           \<and> isFull b' = (2 \<le> int (length [5, 6, 7 :: int]))
           \<and> 2 \<le> int (length [5, 6, 7 :: int]) \<and> Clear \<notin> set [Append 8, SetItem (IntSel 0) (Scalar 9)]
           \<and> isFull (run b' [Append 8, SetItem (IntSel 0) (Scalar 9)])
           \<and> \<not> isFull (clear (run b' [Append 8, SetItem (IntSel 0) (Scalar 9)])))"
  using isFull_until_clear [of 2 stale "[5, 6, 7]" "[Append 8, SetItem (IntSel 0) (Scalar 9)]"] by simp

text \<open>
  Claim C8 at the reads of the elements. Capacity 2, full after 5, 6, 7; then
  \<^verbatim>\<open>clear()\<close> and \<^verbatim>\<open>append(9)\<close>. The cursor is 1 and the length 1, and the array
  the reductions see is \<open>[9]\<close>. But \<^verbatim>\<open>getElements()\<close> is \<open>[6, 9]\<close> and the read of
  index 0 returns 6, a value from before the clear: the appended value is not the whole
  visible window there. The slice at the cursor is the one of claim C1.
\<close>

theorem stale_read_after_clear:
  "clear \<lparr>npa = [7, 6, 7, 6 :: int], max_size = 2, index = 3\<rparr>
     = \<lparr>npa = [7, 6, 7, 6], max_size = 2, index = 0\<rparr>
   \<and> append_rb \<lparr>npa = [7, 6, 7, 6 :: int], max_size = 2, index = 0\<rparr> 9
       = Inr \<lparr>npa = [9, 6, 9, 6], max_size = 2, index = 1\<rparr>
   \<and> len \<lparr>npa = [9, 6, 9, 6 :: int], max_size = 2, index = 1\<rparr> = 1
   \<and> window \<lparr>npa = [9, 6, 9, 6 :: int], max_size = 2, index = 1\<rparr> = Inr [9]
   \<and> getElements \<lparr>npa = [9, 6, 9, 6 :: int], max_size = 2, index = 1\<rparr> = Inr [6, 9]
   \<and> getitem \<lparr>npa = [9, 6, 9, 6 :: int], max_size = 2, index = 1\<rparr> (IntSel 0)
       = Inr (Element 6)"
  by (simp add: clear_def append_rb_def store_pair_def nd_set_def nd_get_def norm_index_def
      len_def isFull_def window_def getElements_def nd_getslice_def slice_indices_def clip_def
      upt_rec)

text \<open>
  Claim C6, as the code has it. The constructor checks nothing. It fails only when the
  allocation of \<open>2 * C\<close> slots does, which is for a negative capacity and with the
  array library's ValueError; for every capacity \<open>C \<ge> 0\<close>, zero included, it
  succeeds with a backing array of length \<open>2 * C\<close> and the cursor at 0.
\<close>

theorem init_outcome:
  "(case init C mem of
      Inl e \<Rightarrow> e = ValueError \<and> C < 0
    | Inr b \<Rightarrow> 0 \<le> C \<and> int (length (npa b)) = 2 * C \<and> max_size b = C \<and> index b = 0)"
  by (simp add: init_def numpy_empty_def)

text \<open>
  Claim C6 as stated fails at capacity 0, where construction succeeds, and at capacity
  \<open>-1\<close>, where the error is the allocation's ValueError.
\<close>

theorem init_zero_capacity:
  "init 0 stale = Inr \<lparr>npa = [], max_size = 0, index = 0\<rparr>
   \<and> init (- 1) stale = Inl ValueError"
  by (simp add: init_def numpy_empty_def)

text \<open>
  Claim C1 at a buffer that is not full. Capacity 2, memory holding 100 to 103, one
  value 5 appended: the length is 1, \<^verbatim>\<open>getElements()\<close> returns the slots 1 and 2,
  which are the unwritten slot 1 and the mirror of slot 0, and its first \<^verbatim>\<open>len\<close>
  elements are \<open>[101]\<close>, not the appended \<open>[5]\<close>.
\<close>

theorem getElements_before_full:
  "init 2 stale = Inr \<lparr>npa = [100, 101, 102, 103], max_size = 2, index = 0\<rparr>
   \<and> appends \<lparr>npa = [100, 101, 102, 103], max_size = 2, index = 0\<rparr> [5]
       = Inr \<lparr>npa = [5, 101, 5, 103], max_size = 2, index = 1\<rparr>
   \<and> len \<lparr>npa = [5, 101, 5, 103 :: int], max_size = 2, index = 1\<rparr> = 1
   \<and> getElements \<lparr>npa = [5, 101, 5, 103 :: int], max_size = 2, index = 1\<rparr> = Inr [101, 5]
   \<and> take (nat (len \<lparr>npa = [5, 101, 5, 103 :: int], max_size = 2, index = 1\<rparr>)) [101, 5 :: int]
       = [101]"
  by (simp add: init_def numpy_empty_def stale_def append_rb_def store_pair_def nd_set_def
      norm_index_def len_def isFull_def getElements_def nd_getslice_def slice_indices_def
      clip_def upt_rec)

text \<open>
  Claim C10, as the code has it. On a buffer with a positive capacity, a write of an
  element \<open>x\<close> whose selector is a list or tuple holding at least one slice raises
  AttributeError: at the first slice item the loop reads \<^verbatim>\<open>indexs.start\<close> on the list
  itself. The buffer the exception leaves is the buffer after the write of the items
  before that slice: every integer item before it has been stored, in both halves, and
  nothing after it has, so the write is not atomic.
\<close>

theorem setitem_list_with_range_fails:
  assumes "valid b" "list_ex is_slice indexs"
  shows "\<exists>b'. setitem b (Items indexs) (Scalar x) = Inl (AttributeError, b')
            \<and> setitem b (Items (takeWhile (\<lambda>it. \<not> is_slice it) indexs)) (Scalar x) = Inr b'
            \<and> b' = b\<lparr>npa := fold (\<lambda>k a. a[k := x])
                            (concat (map (item_slots (max_size b) (index b))
                                         (takeWhile (\<lambda>it. \<not> is_slice it) indexs)))
                            (npa b)\<rparr>
            \<and> (\<forall>i. IntItem i \<in> set (takeWhile (\<lambda>it. \<not> is_slice it) indexs) \<longrightarrow>
                  npa b' ! nat ((i + index b) mod max_size b) = x
                \<and> npa b' ! nat ((i + index b) mod max_size b + max_size b) = x)"
proof -
  let ?pre = "takeWhile (\<lambda>it. \<not> is_slice it) indexs"
  let ?b' = "b\<lparr>npa := fold (\<lambda>k a. a[k := x])
                            (concat (map (item_slots (max_size b) (index b)) ?pre)) (npa b)\<rparr>"
  have 1: "setitem b (Items indexs) (Scalar x) = Inl (AttributeError, ?b')"
    using setitem_items_stops [OF assms, of x] by simp
  have 2: "setitem b (Items ?pre) (Scalar x) = Inr ?b'"
    using setitem_items_plain_list [OF assms(1) takeWhile_no_slice, of indexs x] by simp
  have 3: "npa ?b' ! nat ((i + index b) mod max_size b) = x
         \<and> npa ?b' ! nat ((i + index b) mod max_size b + max_size b) = x"
    if "IntItem i \<in> set ?pre" for i
    using item_slots_stored [OF assms(1) that, where x = x] by simp
  from 1 2 3 show ?thesis by blast
qed

theorem setitem_list_with_range_fails_witness:
  "valid \<lparr>npa = [100, 101, 102, 103, 104, 105, 106, 107 :: int], max_size = 4, index = 0\<rparr>
   \<and> list_ex is_slice [IntItem 1, OtherItem, SliceItem (Slice (Some 2) (Some 3) None), IntItem 3]
   \<and> setitem \<lparr>npa = [100, 101, 102, 103, 104, 105, 106, 107 :: int], max_size = 4, index = 0\<rparr>
        (Items [IntItem 1, OtherItem, SliceItem (Slice (Some 2) (Some 3) None), IntItem 3])
        (Scalar 77)
       = Inl (AttributeError,
              \<lparr>npa = [100, 77, 102, 103, 104, 77, 106, 107], max_size = 4, index = 0\<rparr>)
   \<and> setitem \<lparr>npa = [100, 101, 102, 103, 104, 105, 106, 107 :: int], max_size = 4, index = 0\<rparr>
        (Items [IntItem 1, OtherItem]) (Scalar 77)
       = Inr \<lparr>npa = [100, 77, 102, 103, 104, 77, 106, 107], max_size = 4, index = 0\<rparr>"
  using setitem_list_with_range_fails
    [of "\<lparr>npa = [100, 101, 102, 103, 104, 105, 106, 107 :: int], max_size = 4, index = 0\<rparr>"
        "[IntItem 1, OtherItem, SliceItem (Slice (Some 2) (Some 3) None), IntItem 3]" 77]
  by (simp add: valid_def)

text \<open>
  Claim C10 as stated fails where an integer item before the slice raises first: on
  the buffer of capacity 0, which the constructor builds, the remainder by the capacity
  is a ZeroDivisionError, and a list of two values cannot be stored at one position,
  which is a ValueError.
\<close>

theorem setitem_list_other_errors:
  "init 0 stale = Inr \<lparr>npa = [], max_size = 0, index = 0\<rparr>
   \<and> setitem \<lparr>npa = [] :: int list, max_size = 0, index = 0\<rparr>
        (Items [IntItem 0, SliceItem (Slice (Some 0) (Some 1) None)]) (Scalar 77)
       = Inl (ZeroDivisionError, \<lparr>npa = [], max_size = 0, index = 0\<rparr>)
   \<and> setitem \<lparr>npa = [100, 101, 102, 103 :: int], max_size = 2, index = 0\<rparr>
        (Items [IntItem 0, SliceItem (Slice (Some 0) (Some 1) None)]) (Sequence [1, 2])
       = Inl (ValueError, \<lparr>npa = [100, 101, 102, 103], max_size = 2, index = 0\<rparr>)"
  by (simp add: init_def numpy_empty_def store_pair_def nd_set_def norm_index_def)

text \<open>
  Claim C4, as the code has it. Every store of a value that shares no memory with the
  buffer goes to a slot \<open>s\<close> below the capacity and to \<open>s + capacity\<close> alike. Take a
  buffer with a positive capacity, any calls \<open>pre\<close>, and then calls \<open>cs\<close> with such
  values (appends, writes by index, range or list, also writes that raise, and clears).
  After \<open>cs\<close> the two halves of a slot are equal or both still hold what they held
  before \<open>cs\<close>, and halves that were equal before \<open>cs\<close> are equal after it. An
  append, a write of an element by index and a write of an element to a range make the
  halves equal at the slots they address, and \<open>cs\<close> keeps them so. After capacity or
  more appends in a row the halves of every slot are equal, and \<open>cs\<close> keeps them so.
\<close>

theorem duplication_where_stored:
  assumes "valid b0" "list_all plain_call cs" "s < nat (max_size b0)"
  shows "(mirrored (run b0 (pre @ cs)) s \<or> untouched (run b0 pre) (run b0 (pre @ cs)) s)
       \<and> mirrored (run b0 (pre @ Append x # cs)) (nat (index (run b0 pre) mod max_size b0))
       \<and> mirrored (run b0 (pre @ SetItem (IntSel i) (Scalar x) # cs))
            (nat ((i + index (run b0 pre)) mod max_size b0))
       \<and> (s \<in> set (range_slots (run b0 pre) r) \<longrightarrow>
            mirrored (run b0 (pre @ SetItem (SliceSel r) (Scalar x) # cs)) s)
       \<and> (nat (max_size b0) \<le> length vs \<longrightarrow> mirrored (run b0 (pre @ map Append vs @ cs)) s)
       \<and> (mirrored (run b0 pre) s \<longrightarrow> mirrored (run b0 (pre @ cs)) s)"
proof -
  let ?b = "run b0 pre"
  let ?C = "max_size b0"
  have v: "valid ?b" using assms(1) by (rule run_keeps_valid)
  have m: "max_size ?b = ?C" by (rule run_frame(1))
  have C: "0 < ?C" using assms(1) by (simp add: valid_def)
  have s: "s < nat (max_size ?b)" using assms(3) m by simp
  have keep: "mirrored (run b' cs) t" if "valid b'" "max_size b' = ?C" "t < nat ?C" "mirrored b' t"
    for b' t
    using run_settled [OF that(1) _ assms(2), of t] that(2,3,4)
    by (auto intro: settled_mirrored)
  have 1: "mirrored (run b0 (pre @ cs)) s \<or> untouched ?b (run b0 (pre @ cs)) s"
    using run_settled [OF v s assms(2)] by (simp add: run_append settled_def)
  have 2: "mirrored (run b0 (pre @ Append x # cs)) (nat (index ?b mod ?C))"
  proof -
    let ?b1 = "left (exec ?b (Append x))"
    have "mirrored ?b1 (nat (index ?b mod ?C))"
      using exec_append_state(3) [OF v, of x] m by simp
    moreover have "valid ?b1" using v by (rule exec_keeps_valid)
    moreover have "max_size ?b1 = ?C" using exec_frame(1) [of ?b "Append x"] m by simp
    moreover have "nat (index ?b mod ?C) < nat ?C" using C by simp
    ultimately have "mirrored (run ?b1 cs) (nat (index ?b mod ?C))" by (intro keep)
    then show ?thesis by (simp add: run_append)
  qed
  have 3: "mirrored (run b0 (pre @ SetItem (IntSel i) (Scalar x) # cs))
            (nat ((i + index ?b) mod ?C))"
  proof -
    let ?b1 = "left (exec ?b (SetItem (IntSel i) (Scalar x)))"
    have "mirrored ?b1 (nat ((i + index ?b) mod ?C))"
      using store_pair_establishes [OF v, of "i + index ?b" x] m by simp
    moreover have "valid ?b1" using v by (rule exec_keeps_valid)
    moreover have "max_size ?b1 = ?C"
      using exec_frame(1) [of ?b "SetItem (IntSel i) (Scalar x)"] m by simp
    moreover have "nat ((i + index ?b) mod ?C) < nat ?C" using C by simp
    ultimately have "mirrored (run ?b1 cs) (nat ((i + index ?b) mod ?C))" by (intro keep)
    then show ?thesis by (simp add: run_append)
  qed
  have 4: "mirrored (run b0 (pre @ map Append vs @ cs)) s" if "nat ?C \<le> length vs"
  proof -
    let ?b1 = "run ?b (map Append vs)"
    have "mirrored ?b1 s" using v that s m by (intro appends_fill) simp_all
    moreover have "valid ?b1" using v by (rule run_keeps_valid)
    moreover have "max_size ?b1 = ?C" using run_frame(1) [of ?b "map Append vs"] m by simp
    ultimately have "mirrored (run ?b1 cs) s" using assms(3) by (intro keep)
    then show ?thesis by (simp add: run_append)
  qed
  have 5: "mirrored (run b0 (pre @ SetItem (SliceSel r) (Scalar x) # cs)) s"
    if "s \<in> set (range_slots ?b r)"
  proof -
    let ?b1 = "left (exec ?b (SetItem (SliceSel r) (Scalar x)))"
    have "mirrored ?b1 s" using store_range_establishes [OF v that, of x] by simp
    moreover have "valid ?b1" using v by (rule exec_keeps_valid)
    moreover have "max_size ?b1 = ?C"
      using exec_frame(1) [of ?b "SetItem (SliceSel r) (Scalar x)"] m by simp
    ultimately have "mirrored (run ?b1 cs) s" using assms(3) by (intro keep)
    then show ?thesis by (simp add: run_append)
  qed
  have 6: "mirrored (run b0 (pre @ cs)) s" if "mirrored ?b s"
    using keep [OF v m assms(3) that] by (simp add: run_append)
  from 1 2 3 4 5 6 show ?thesis by simp
qed

theorem duplication_where_stored_witness:
  "valid \<lparr>npa = [7, 6, 7, 6 :: int], max_size = 2, index = 3\<rparr>
   \<and> list_all plain_call [SetItem (SliceSel (Slice (Some 1) (Some 0) (Some (- 1)))) (Sequence [9 :: int])]
   \<and> 0 < nat 2
   \<and> mirrored (run \<lparr>npa = [7, 6, 7, 6 :: int], max_size = 2, index = 3\<rparr>
        ([Clear] @ [SetItem (SliceSel (Slice (Some 1) (Some 0) (Some (- 1)))) (Sequence [9 :: int])])) 0
   \<and> mirrored (run \<lparr>npa = [7, 6, 7, 6 :: int], max_size = 2, index = 3\<rparr>
        ([Clear] @ Append 5 # [SetItem (SliceSel (Slice (Some 1) (Some 0) (Some (- 1)))) (Sequence [9 :: int])]))
        (nat (index (run \<lparr>npa = [7, 6, 7, 6 :: int], max_size = 2, index = 3\<rparr> [Clear]) mod 2))
   \<and> mirrored (run \<lparr>npa = [7, 6, 7, 6 :: int], max_size = 2, index = 3\<rparr>
        ([Clear] @ SetItem (IntSel 0) (Scalar 5) # [SetItem (SliceSel (Slice (Some 1) (Some 0) (Some (- 1)))) (Sequence [9 :: int])]))
        (nat ((0 + index (run \<lparr>npa = [7, 6, 7, 6 :: int], max_size = 2, index = 3\<rparr> [Clear])) mod 2))
   \<and> 0 \<in> set (range_slots (run \<lparr>npa = [7, 6, 7, 6 :: int], max_size = 2, index = 3\<rparr> [Clear])
                (Slice (Some 0) (Some 1) None))
   \<and> mirrored (run \<lparr>npa = [7, 6, 7, 6 :: int], max_size = 2, index = 3\<rparr>
        ([Clear] @ SetItem (SliceSel (Slice (Some 0) (Some 1) None)) (Scalar 5) # [SetItem (SliceSel (Slice (Some 1) (Some 0) (Some (- 1)))) (Sequence [9 :: int])])) 0
   \<and> nat 2 \<le> length [5, 6 :: int]
   \<and> mirrored (run \<lparr>npa = [7, 6, 7, 6 :: int], max_size = 2, index = 3\<rparr>
        ([Clear] @ map Append [5, 6] @ [SetItem (SliceSel (Slice (Some 1) (Some 0) (Some (- 1)))) (Sequence [9 :: int])])) 0
   \<and> mirrored (run \<lparr>npa = [7, 6, 7, 6 :: int], max_size = 2, index = 3\<rparr> [Clear]) 0"
  using duplication_where_stored
    [of "\<lparr>npa = [7, 6, 7, 6 :: int], max_size = 2, index = 3\<rparr>"
        "[SetItem (SliceSel (Slice (Some 1) (Some 0) (Some (- 1)))) (Sequence [9 :: int])]" 0 "[Clear]" 5 0 "Slice (Some 0) (Some 1) None" "[5, 6]"]
  by (simp add: valid_def clear_def mirrored_def range_slots_def slice_indices_def clip_def
      upt_rec)

text \<open>
  Claim C4 as stated fails in two ways. At a slot no call has written the two halves
  hold what the memory held: capacity 2, memory 100 to 103, one append of 5, and slot 1
  holds 101 against 103. And a range write whose value is a view of the buffer reads
  the view again for the second assignment: on the full buffer of capacity 3 holding
  5, 6, 7, the write \<^verbatim>\<open>buffer[0:2] = buffer[1:3]\<close> stores 6, 7 in the lower half and
  7, 7 in the upper, so slot 0 holds 6 against 7.
\<close>

theorem duplication_broken:
  "init 2 stale = Inr \<lparr>npa = [100, 101, 102, 103], max_size = 2, index = 0\<rparr>
   \<and> run \<lparr>npa = [100, 101, 102, 103], max_size = 2, index = 0\<rparr> [Append 5]
       = \<lparr>npa = [5, 101, 5, 103], max_size = 2, index = 1\<rparr>
   \<and> \<not> mirrored \<lparr>npa = [5, 101, 5, 103 :: int], max_size = 2, index = 1\<rparr> 1
   \<and> appends \<lparr>npa = [100, 101, 102, 103, 104, 105 :: int], max_size = 3, index = 0\<rparr> [5, 6, 7]
       = Inr \<lparr>npa = [5, 6, 7, 5, 6, 7], max_size = 3, index = 3\<rparr>
   \<and> getitem \<lparr>npa = [5, 6, 7, 5, 6, 7 :: int], max_size = 3, index = 3\<rparr>
        (SliceSel (Slice (Some 1) (Some 3) None)) = Inr (Elements [6, 7])
   \<and> run \<lparr>npa = [5, 6, 7, 5, 6, 7 :: int], max_size = 3, index = 3\<rparr>
        [SetItem (SliceSel (Slice (Some 0) (Some 2) None)) (View [1, 2])]
       = \<lparr>npa = [6, 7, 7, 7, 7, 7], max_size = 3, index = 3\<rparr>
   \<and> \<not> mirrored \<lparr>npa = [6, 7, 7, 7, 7, 7 :: int], max_size = 3, index = 3\<rparr> 0"
  by (simp add: init_def numpy_empty_def stale_def upt_rec append_rb_def store_pair_def
      nd_set_def norm_index_def mirrored_def getElements_def nd_getslice_def slice_indices_def
      clip_def store_range_def nd_setslice_def broadcast_def)

text \<open>
  Claim C9, as the code has it. A write to a single slice with explicit start \<open>a\<close> and
  stop \<open>e\<close>, with no step or a positive step, for which
  \<open>(a + cursor) mod capacity > (e + cursor) mod capacity\<close>, changes no slot: both
  slices are empty. It returns without an error when the value is one element or has at
  most one element, and the value is dropped; a value of two or more elements raises
  ValueError.
\<close>

theorem wrapped_range_write_is_lost:
  assumes "valid b" "forward st"
    "(e + index b) mod max_size b < (a + index b) mod max_size b"
  shows "setitem b (SliceSel (Slice (Some a) (Some e) st)) v =
           (if length (items_of (npa b) v) \<le> 1 then Inr b else Inl (ValueError, b))"
proof -
  let ?C = "max_size b"
  let ?lo = "(a + index b) mod ?C"
  let ?hi = "(e + index b) mod ?C"
  from assms(1) have C: "0 < ?C" and L: "int (length (npa b)) = 2 * ?C"
    by (simp_all add: valid_def)
  have r: "0 \<le> ?lo" "?lo < ?C" "0 \<le> ?hi" "?hi < ?C" using C by simp_all
  have 1: "slice_indices (length (npa b)) (Slice (Some ?lo) (Some ?hi) st) = Inr []"
    using r assms(2,3) L by (intro slice_indices_backward) linarith+
  have 2: "slice_indices (length (npa b)) (Slice (Some (?lo + ?C)) (Some (?hi + ?C)) st) = Inr []"
    using r assms(2,3) L by (intro slice_indices_backward) linarith+
  have 3: "broadcast arr v 0 =
             (if length (items_of (npa b) v) \<le> 1 then Inr [] else Inl ValueError)" for arr
    using length_items_of [of arr v "npa b"]
    by (cases "items_of arr v") (auto simp: broadcast_def Let_def)
  show ?thesis using C 1 2 3 by (simp add: store_range_def nd_setslice_def)
qed

theorem wrapped_range_write_is_lost_witness:
  "valid \<lparr>npa = [100, 101, 102, 103, 104, 105, 106, 107 :: int], max_size = 4, index = 3\<rparr>
   \<and> forward None
   \<and> ((2::int) + 3) mod 4 < (0 + 3) mod 4
   \<and> setitem \<lparr>npa = [100, 101, 102, 103, 104, 105, 106, 107 :: int], max_size = 4, index = 3\<rparr>
        (SliceSel (Slice (Some 0) (Some 2) None)) (Scalar 77)
       = Inr \<lparr>npa = [100, 101, 102, 103, 104, 105, 106, 107], max_size = 4, index = 3\<rparr>"
  using wrapped_range_write_is_lost
    [of "\<lparr>npa = [100, 101, 102, 103, 104, 105, 106, 107 :: int], max_size = 4, index = 3\<rparr>"
        None 2 0 "Scalar 77"]
  by (simp add: valid_def)

text \<open>
  Claim C9 as stated fails for a negative step and for a value of two elements.
  Capacity 4, cursor 3, the range 0 to 2, whose remainders are 3 and 1: with step
  \<open>-1\<close> the slice from 3 down to 1 selects the slots 3 and 2, which are stored
  together with their mirrors 7 and 6; with no step the slice is empty and the list
  \<open>[1, 2]\<close> cannot be broadcast to it, which is a ValueError.
\<close>

theorem wrapped_range_write_not_lost:
  "((2::int) + 3) mod 4 < (0 + 3) mod 4
   \<and> setitem \<lparr>npa = [100, 101, 102, 103, 104, 105, 106, 107 :: int], max_size = 4, index = 3\<rparr>
        (SliceSel (Slice (Some 0) (Some 2) (Some (- 1)))) (Scalar 77)
       = Inr \<lparr>npa = [100, 101, 77, 77, 104, 105, 77, 77], max_size = 4, index = 3\<rparr>
   \<and> setitem \<lparr>npa = [100, 101, 102, 103, 104, 105, 106, 107 :: int], max_size = 4, index = 3\<rparr>
        (SliceSel (Slice (Some 0) (Some 2) None)) (Sequence [1, 2])
       = Inl (ValueError,
              \<lparr>npa = [100, 101, 102, 103, 104, 105, 106, 107], max_size = 4, index = 3\<rparr>)"
  by (simp add: store_range_def nd_setslice_def slice_indices_def clip_def broadcast_def upt_rec)

text \<open>
  Claim C5, as the code has it. No negative position is rejected as such. A read hands
  the index to the capacity-long array of \<^verbatim>\<open>getElements\<close>, where a negative index
  \<open>i\<close> counts from the end (element \<open>capacity + i\<close>) and raises IndexError only when
  \<open>i < - capacity\<close>. A write of an element adds the cursor and takes the remainder by
  the capacity, so it always succeeds and stores at the slot
  \<open>(i + cursor) mod capacity\<close> and its mirror. A range, read or written, raises
  nothing but a ValueError (a zero step, or a written value that does not fit the
  slice), whatever its offsets.
\<close>

theorem negative_positions_accepted:
  assumes "valid b" "i < 0"
  shows "getitem b (IntSel i) =
           (if - max_size b \<le> i
            then map_sum id (\<lambda>w. Element (w ! nat (max_size b + i))) (getElements b)
            else Inl IndexError)
       \<and> setitem b (IntSel i) (Scalar v) =
           Inr (b\<lparr>npa := (npa b)[nat ((i + index b) mod max_size b) := v,
                                  nat ((i + index b) mod max_size b + max_size b) := v]\<rparr>)
       \<and> (case getitem b (SliceSel s) of Inl e \<Rightarrow> e = ValueError | Inr r \<Rightarrow> True)
       \<and> (case setitem b (SliceSel s) u of Inl (e, b') \<Rightarrow> e = ValueError | Inr b' \<Rightarrow> True)"
proof -
  from getElements_length [OF assms(1)] obtain w where
    w: "getElements b = Inr w" "length w = nat (max_size b)" by blast
  have C: "0 < max_size b" using assms(1) by (simp add: valid_def)
  have 1: "getitem b (IntSel i) =
           (if - max_size b \<le> i
            then map_sum id (\<lambda>w. Element (w ! nat (max_size b + i))) (getElements b)
            else Inl IndexError)"
    using w C assms(2) by (auto simp: nd_get_def norm_index_def Let_def add.commute)
  have 2: "setitem b (IntSel i) (Scalar v) =
           Inr (b\<lparr>npa := (npa b)[nat ((i + index b) mod max_size b) := v,
                                  nat ((i + index b) mod max_size b + max_size b) := v]\<rparr>)"
    by (simp add: store_pair_valid [OF assms(1)])
  have 3: "(case getitem b (SliceSel s) of Inl e \<Rightarrow> e = ValueError | Inr r \<Rightarrow> True)"
    using w nd_getslice_error [of w s]
    by (cases "nd_getslice w s") simp_all
  have 4: "(case setitem b (SliceSel s) u of Inl (e, b') \<Rightarrow> e = ValueError | Inr b' \<Rightarrow> True)"
    using store_range_cases [OF assms(1), of s u] by auto
  from 1 2 3 4 show ?thesis by simp
qed

theorem negative_positions_accepted_witness:
  "valid \<lparr>npa = [7, 6, 7, 6 :: int], max_size = 2, index = 3\<rparr> \<and> (- 1 :: int) < 0
   \<and> getitem \<lparr>npa = [7, 6, 7, 6 :: int], max_size = 2, index = 3\<rparr> (IntSel (- 1))
       = Inr (Element 7)
   \<and> setitem \<lparr>npa = [7, 6, 7, 6 :: int], max_size = 2, index = 3\<rparr> (IntSel (- 1)) (Scalar 9)
       = Inr \<lparr>npa = [9, 6, 9, 6], max_size = 2, index = 3\<rparr>
   \<and> getitem \<lparr>npa = [7, 6, 7, 6 :: int], max_size = 2, index = 3\<rparr>
        (SliceSel (Slice (Some (- 1)) None None)) = Inr (Elements [7])
   \<and> setitem \<lparr>npa = [7, 6, 7, 6 :: int], max_size = 2, index = 3\<rparr>
        (SliceSel (Slice (Some (- 1)) (Some 0) None)) (Scalar 9)
       = Inr \<lparr>npa = [9, 6, 9, 6], max_size = 2, index = 3\<rparr>"
  using negative_positions_accepted
    [of "\<lparr>npa = [7, 6, 7, 6 :: int], max_size = 2, index = 3\<rparr>" "- 1" 9
        "Slice (Some (- 1)) None None" "Scalar 9"]
  by (simp add: valid_def getElements_def nd_getslice_def slice_indices_def clip_def upt_rec
      store_range_def nd_setslice_def broadcast_def)

text \<open>
  Claim C5 as stated fails on a full buffer. Capacity 2 after the appends 5, 6, 7:
  reading index \<open>-1\<close> returns 7, the newest element, and writing 9 at index \<open>-1\<close>
  replaces that same element in both halves. Neither raises.
\<close>

theorem negative_index_counts_from_end:
  "init 2 stale = Inr \<lparr>npa = [100, 101, 102, 103], max_size = 2, index = 0\<rparr>
   \<and> appends \<lparr>npa = [100, 101, 102, 103], max_size = 2, index = 0\<rparr> [5, 6, 7]
       = Inr \<lparr>npa = [7, 6, 7, 6], max_size = 2, index = 3\<rparr>
   \<and> getitem \<lparr>npa = [7, 6, 7, 6 :: int], max_size = 2, index = 3\<rparr> (IntSel (- 1))
       = Inr (Element 7)
   \<and> setitem \<lparr>npa = [7, 6, 7, 6 :: int], max_size = 2, index = 3\<rparr> (IntSel (- 1)) (Scalar 9)
       = Inr \<lparr>npa = [9, 6, 9, 6], max_size = 2, index = 3\<rparr>"
  by (simp add: init_def numpy_empty_def stale_def upt_rec append_rb_def store_pair_def
      nd_set_def nd_get_def norm_index_def getElements_def nd_getslice_def slice_indices_def clip_def)

end
